theory Spec2Isabelle
  imports Main "HOL-Library.Multiset"
begin

section \<open>JavaScript values and string operations used by the engine\<close>

text \<open>
  The transaction engine of the mint bot lives in \<^verbatim>\<open>transaction.js\<close> (class
  \<^verbatim>\<open>TransactionManager\<close>) and in the variants of \<^verbatim>\<open>index.js\<close> (function
  \<^verbatim>\<open>sendMonadMintTx\<close> and the \<^verbatim>\<open>/mint\<close> handler). Addresses, hashes and error
  messages are strings; an \<^verbatim>\<open>Error\<close> object is represented by its \<^verbatim>\<open>message\<close>, the
  only field the engine reads for its decisions.
\<close>

type_synonym address = string

text \<open>
  A value that the source leaves dynamically typed: \<^verbatim>\<open>options.to\<close>,
  \<^verbatim>\<open>options.gasPrice\<close>, \<^verbatim>\<open>options.gasLimit\<close> and \<^verbatim>\<open>options.timeout\<close> may be
  absent, numbers or strings.
\<close>

datatype jsval = JUndefined | JNum nat | JStr string

text \<open>Truthiness, and the operator \<^verbatim>\<open>a || b\<close>.\<close>

fun truthy :: "jsval \<Rightarrow> bool" where
  "truthy JUndefined = False"
| "truthy (JNum n) = (n \<noteq> 0)"
| "truthy (JStr s) = (s \<noteq> [])"

definition js_or :: "jsval \<Rightarrow> jsval \<Rightarrow> jsval" where
  "js_or a b = (if truthy a then a else b)"

text \<open>\<^verbatim>\<open>String.prototype.startsWith\<close> and \<^verbatim>\<open>String.prototype.includes\<close>.\<close>

fun startsWith :: "string \<Rightarrow> string \<Rightarrow> bool" where
  "startsWith s [] = True"
| "startsWith [] (p # ps) = False"
| "startsWith (c # cs) (p # ps) = (c = p \<and> startsWith cs ps)"

fun str_includes :: "string \<Rightarrow> string \<Rightarrow> bool" where
  "str_includes [] sub = startsWith [] sub"
| "str_includes (c # cs) sub = (startsWith (c # cs) sub \<or> str_includes cs sub)"

text \<open>
  \<^verbatim>\<open>String.prototype.toLowerCase\<close> on the characters an address can hold: the
  letters \<^verbatim>\<open>A\<close> to \<^verbatim>\<open>Z\<close> are mapped to \<^verbatim>\<open>a\<close> to \<^verbatim>\<open>z\<close>, every other character
  is kept.
\<close>

definition is_upper :: "char \<Rightarrow> bool" where
  "is_upper c = ((65::nat) \<le> of_char c \<and> of_char c \<le> (90::nat))"

definition is_lower :: "char \<Rightarrow> bool" where
  "is_lower c = ((97::nat) \<le> of_char c \<and> of_char c \<le> (122::nat))"

definition lower_char :: "char \<Rightarrow> char" where
  "lower_char c = (if is_upper c then char_of ((of_char c :: nat) + 32) else c)"

definition toLowerCase :: "string \<Rightarrow> string" where
  "toLowerCase s = map lower_char s"

text \<open>
  \<^verbatim>\<open>Array.prototype.slice(0, n)\<close> for an integer \<open>n\<close>: a negative \<open>n\<close> counts from
  the end of the array.
\<close>

definition slice0 :: "'a list \<Rightarrow> int \<Rightarrow> 'a list" where
  "slice0 xs n = (if n < 0 then take (nat (int (length xs) + n)) xs else take (nat n) xs)"

section \<open>Data model of \<^verbatim>\<open>transaction.js\<close>\<close>

datatype tx_status = Pending | Confirmed | Failed

text \<open>The receipt that \<^verbatim>\<open>web3.eth.sendSignedTransaction\<close> resolves with.\<close>

record receipt =
  transactionHash :: string
  blockNumber :: nat
  gasUsed :: nat

text \<open>
  The object literal \<^verbatim>\<open>txRecord\<close> of \<^verbatim>\<open>sendTransaction\<close>. The fields
  \<^verbatim>\<open>blockNumber\<close>, \<^verbatim>\<open>gasUsed\<close> and \<^verbatim>\<open>error\<close> are absent until they are assigned.
\<close>

record tx_record =
  tx_hash :: string
  tx_from :: address
  tx_to :: jsval
  tx_timestamp :: nat
  tx_status :: tx_status
  tx_gasPrice :: jsval
  tx_gasLimit :: jsval
  tx_blockNumber :: "nat option"
  tx_gasUsed :: "nat option"
  tx_error :: "string option"

record signedTx =
  rawTransaction :: string

record options =
  opt_to :: jsval
  opt_gasPrice :: jsval
  opt_gasLimit :: jsval
  opt_timeout :: jsval

text \<open>
  The state of a \<^verbatim>\<open>TransactionManager\<close>. The history array holds references to
  record objects, and \<^verbatim>\<open>sendTransaction\<close> keeps such a reference across its
  \<^verbatim>\<open>await\<close> and writes through it afterwards, so the objects live in an explicit
  store \<open>objs\<close> and the array \<open>txHistory\<close> holds their references (most recent
  first). References are handed out in order of creation by the counter \<open>next_obj\<close>.
\<close>

record TransactionManager =
  pendingNonces :: "address \<Rightarrow> nat option"
  txHistory :: "nat list"
  objs :: "nat \<Rightarrow> tx_record option"
  next_obj :: nat

definition maxHistoryItems :: nat where
  "maxHistoryItems = 100"

text \<open>The constructor when \<^verbatim>\<open>tx_history.json\<close> does not exist.\<close>

definition new_TransactionManager :: TransactionManager where
  "new_TransactionManager =
     \<lparr>pendingNonces = (\<lambda>a. None), txHistory = [], objs = (\<lambda>r. None), next_obj = 0\<rparr>"


text \<open>What \<^verbatim>\<open>JSON.stringify(this.txHistory)\<close> serialises: the records behind the array.\<close>

definition snapshot :: "TransactionManager \<Rightarrow> tx_record list" where
  "snapshot s = List.map_filter (objs s) (txHistory s)"

text \<open>
  The observable effects of the manager, in the order in which the source performs them.
  \<open>SaveHistory\<close> is the call \<^verbatim>\<open>fs.writeFileSync(historyFile, ...)\<close> with the serialised
  history (\<^verbatim>\<open>saveHistory\<close> catches and logs a failing write, so the call never raises);
  \<open>Race\<close> is \<^verbatim>\<open>Promise.race\<close> of the broadcast of the raw transaction and the timer.
\<close>

datatype event =
    Sha3 string
  | HistoryUnshift nat
  | HistoryPop nat
  | SaveHistory "tx_record list"
  | Race string jsval
  | SetStatus nat tx_status
  | LogAction string string
  | DeleteNonce address

section \<open>The nonce allocator\<close>

text \<open>
  \<^verbatim>\<open>getNonce\<close>: the call awaits \<^verbatim>\<open>getTransactionCount\<close> first; a rejection of that
  call propagates and leaves the manager as it is. Everything after the \<^verbatim>\<open>await\<close>
  runs without another suspension point, hence as one step of the event loop:
  \<open>getNonce_resume\<close>.
\<close>

definition getNonce_resume :: "TransactionManager \<Rightarrow> address \<Rightarrow> nat \<Rightarrow> nat \<times> TransactionManager" where
  "getNonce_resume s a onChainNonce =
     (let pendingNonce = (case pendingNonces s a of
                            None \<Rightarrow> onChainNonce
                          | Some p \<Rightarrow> if p = 0 then onChainNonce else p);
          nonce = max onChainNonce pendingNonce
      in (nonce, s\<lparr>pendingNonces := (pendingNonces s)(a := Some (nonce + 1))\<rparr>))"

definition getNonce :: "TransactionManager \<Rightarrow> address \<Rightarrow> string + nat \<Rightarrow> (string + nat) \<times> TransactionManager" where
  "getNonce s a rpc =
     (case rpc of
        Inl err \<Rightarrow> (Inl err, s)
      | Inr onChainNonce \<Rightarrow>
          (let (nonce, s') = getNonce_resume s a onChainNonce in (Inr nonce, s')))"

section \<open>The submitter\<close>

text \<open>
  How the broadcast and the timer settle. \<open>BroadcastFirst\<close>: the broadcast settles
  before the timer fires. \<open>TimerFirst\<close>: the timer fires first; its argument is what the
  abandoned broadcast does later, if it ever settles.
\<close>

datatype settled = Resolved receipt | Rejected string

datatype race_outcome = BroadcastFirst settled | TimerFirst "settled option"

definition promise_race :: "race_outcome \<Rightarrow> string + receipt" where
  "promise_race out =
     (case out of
        BroadcastFirst (Resolved r) \<Rightarrow> Inr r
      | BroadcastFirst (Rejected m) \<Rightarrow> Inl m
      | TimerFirst late \<Rightarrow> Inl ''Transaction timeout'')"

text \<open>A write through the reference \<^verbatim>\<open>txRecord\<close>.\<close>

definition update_obj :: "TransactionManager \<Rightarrow> nat \<Rightarrow> (tx_record \<Rightarrow> tx_record) \<Rightarrow> TransactionManager" where
  "update_obj s r f = s\<lparr>objs := (objs s)(r := map_option f (objs s r))\<rparr>"

text \<open>
  The object literal \<^verbatim>\<open>txRecord\<close> (lines 47 to 55) is the definition \<open>txRecord\<close>.
  \<^verbatim>\<open>sendTransaction\<close> up to its \<^verbatim>\<open>await\<close>: hash, record, \<^verbatim>\<open>unshift\<close>, the
  \<^verbatim>\<open>pop\<close> when the array has grown beyond \<^verbatim>\<open>maxHistoryItems\<close>, \<^verbatim>\<open>saveHistory\<close>,
  and the start of the race. It returns the reference held in \<^verbatim>\<open>txRecord\<close>.
\<close>

definition txRecord :: "string \<Rightarrow> address \<Rightarrow> options \<Rightarrow> nat \<Rightarrow> tx_record" where
  "txRecord txHash walletAddress opts startTime =
     \<lparr>tx_hash = txHash, tx_from = walletAddress,
      tx_to = js_or (opt_to opts) (JStr ''unknown''),
      tx_timestamp = startTime, tx_status = Pending,
      tx_gasPrice = js_or (opt_gasPrice opts) (JStr ''unknown''),
      tx_gasLimit = js_or (opt_gasLimit opts) (JStr ''unknown''),
      tx_blockNumber = None, tx_gasUsed = None, tx_error = None\<rparr>"

definition sendTransaction_begin ::
  "(string \<Rightarrow> string) \<Rightarrow> TransactionManager \<Rightarrow> signedTx \<Rightarrow> address \<Rightarrow> options \<Rightarrow> nat
     \<Rightarrow> nat \<times> TransactionManager \<times> event list" where
  "sendTransaction_begin sha3 s stx walletAddress opts startTime =
     (let txHash = sha3 (rawTransaction stx);
          r = next_obj s;
          s1 = s\<lparr>objs := (objs s)(r := Some (txRecord txHash walletAddress opts startTime)),
                 next_obj := Suc r,
                 txHistory := r # txHistory s\<rparr>;
          popped = (length (txHistory s1) > maxHistoryItems);
          s2 = (if popped then s1\<lparr>txHistory := butlast (txHistory s1)\<rparr> else s1);
          timeout = js_or (opt_timeout opts) (JNum 120000)
      in (r, s2,
          [Sha3 (rawTransaction stx), HistoryUnshift r]
          @ (if popped then [HistoryPop (last (txHistory s1))] else [])
          @ [SaveHistory (snapshot s2), Race (rawTransaction stx) timeout]))"

text \<open>
  \<^verbatim>\<open>sendTransaction\<close> after the race has settled: the \<^verbatim>\<open>try\<close> branch on a receipt,
  the \<^verbatim>\<open>catch\<close> branch on a rejection or on the timer.
\<close>

definition sendTransaction_settle ::
  "TransactionManager \<Rightarrow> nat \<Rightarrow> address \<Rightarrow> race_outcome
     \<Rightarrow> (string + receipt) \<times> TransactionManager \<times> event list" where
  "sendTransaction_settle s r walletAddress out =
     (case promise_race out of
        Inr rcpt \<Rightarrow>
          (let s1 = update_obj s r (\<lambda>t. t\<lparr>tx_status := Confirmed,
                                          tx_blockNumber := Some (blockNumber rcpt),
                                          tx_gasUsed := Some (gasUsed rcpt)\<rparr>)
           in (Inr rcpt, s1,
               [SetStatus r Confirmed, SaveHistory (snapshot s1),
                LogAction ''transaction_confirmed'' walletAddress]))
      | Inl msg \<Rightarrow>
          (let s1 = update_obj s r (\<lambda>t. t\<lparr>tx_status := Failed, tx_error := Some msg\<rparr>);
               desync = (str_includes msg ''nonce'' \<or> str_includes msg ''underpriced'');
               s2 = (if desync
                     then s1\<lparr>pendingNonces := (pendingNonces s1)(walletAddress := None)\<rparr>
                     else s1)
           in (Inl msg, s2,
               [SetStatus r Failed, SaveHistory (snapshot s1),
                LogAction ''transaction_failed'' walletAddress]
               @ (if desync then [DeleteNonce walletAddress] else []))))"

text \<open>A call of \<^verbatim>\<open>sendTransaction\<close> that nothing else interleaves with.\<close>

definition sendTransaction ::
  "(string \<Rightarrow> string) \<Rightarrow> TransactionManager \<Rightarrow> signedTx \<Rightarrow> address \<Rightarrow> options \<Rightarrow> nat
     \<Rightarrow> race_outcome \<Rightarrow> (string + receipt) \<times> TransactionManager \<times> event list" where
  "sendTransaction sha3 s stx walletAddress opts startTime out =
     (let (r, s1, ev1) = sendTransaction_begin sha3 s stx walletAddress opts startTime;
          (res, s2, ev2) = sendTransaction_settle s1 r walletAddress out
      in (res, s2, ev1 @ ev2))"

text \<open>
  A call of \<^verbatim>\<open>sendTransaction\<close> among other calls: \<open>others\<close> is what the calls
  that run while this one awaits the race do to the manager.
\<close>

definition sendTransaction_among ::
  "(string \<Rightarrow> string) \<Rightarrow> (TransactionManager \<Rightarrow> TransactionManager) \<Rightarrow> TransactionManager
     \<Rightarrow> signedTx \<Rightarrow> address \<Rightarrow> options \<Rightarrow> nat \<Rightarrow> race_outcome
     \<Rightarrow> (string + receipt) \<times> TransactionManager \<times> event list" where
  "sendTransaction_among sha3 others s stx walletAddress opts startTime out =
     (let (r, s1, ev1) = sendTransaction_begin sha3 s stx walletAddress opts startTime;
          (res, s2, ev2) = sendTransaction_settle (others s1) r walletAddress out
      in (res, s2, ev1 @ ev2))"

text \<open>
  \<^verbatim>\<open>getTransactionHistory\<close>: the references of the selected records, and the
  manager, which the query does not write to.
\<close>

definition from_matches :: "TransactionManager \<Rightarrow> address \<Rightarrow> nat \<Rightarrow> bool" where
  "from_matches s a r =
     (case objs s r of
        None \<Rightarrow> False
      | Some t \<Rightarrow> toLowerCase (tx_from t) = toLowerCase a)"

definition getTransactionHistory ::
  "TransactionManager \<Rightarrow> address option \<Rightarrow> int \<Rightarrow> nat list \<times> TransactionManager" where
  "getTransactionHistory s address limit =
     (case address of
        None \<Rightarrow> (slice0 (txHistory s) limit, s)
      | Some a \<Rightarrow>
          if a = [] then (slice0 (txHistory s) limit, s)
          else (slice0 (filter (from_matches s a) (txHistory s)) limit, s))"

text \<open>
  Two address strings differ only in letter case when they have the same length and, at
  every position, hold the same character or the upper-case and lower-case form of one
  letter.
\<close>

definition case_variant :: "char \<Rightarrow> char \<Rightarrow> bool" where
  "case_variant c d =
     (c = d \<or> (is_upper c \<and> (of_char d :: nat) = of_char c + 32)
            \<or> (is_upper d \<and> (of_char c :: nat) = of_char d + 32))"

definition differ_only_in_case :: "string \<Rightarrow> string \<Rightarrow> bool" where
  "differ_only_in_case a b = list_all2 case_variant a b"

section \<open>The event loop: interleaved calls on one manager\<close>

text \<open>
  The bot runs on one thread. An \<^verbatim>\<open>async\<close> call runs until its next \<^verbatim>\<open>await\<close>,
  then other calls may run, and it resumes later. The steps below are the pieces of the
  manager's methods between two suspension points. The engine keeps, beside the
  manager, the suspended calls of \<^verbatim>\<open>sendTransaction\<close>: for each the reference it
  holds in \<^verbatim>\<open>txRecord\<close> and its \<^verbatim>\<open>walletAddress\<close>.
\<close>

record engine =
  manager :: TransactionManager
  in_flight :: "(nat \<times> address) list"

text \<open>
  \<^verbatim>\<open>2ndindex.js\<close> reads \<^verbatim>\<open>nonceData.nonce\<close> and \<^verbatim>\<open>nonceData.release\<close> from the
  value that \<^verbatim>\<open>getNonce\<close> returned. That value is a number, and a number has neither
  property: both reads give \<^verbatim>\<open>undefined\<close>, and the guarded call
  \<^verbatim>\<open>nonceData.release()\<close> is reached only when the read is truthy.
\<close>

definition number_property :: "nat \<Rightarrow> string \<Rightarrow> jsval" where
  "number_property n name = JUndefined"

definition release_called :: "nat \<Rightarrow> bool" where
  "release_called nonceData = truthy (number_property nonceData ''release'')"

datatype step =
    NonceStep address "string + nat"
  | BeginStep signedTx address options nat
  | SettleStep nat address race_outcome
  | QueryStep "address option" int
  | ReleaseStep nat

datatype step_result =
    Nonce "string + nat"
  | Begun nat
  | Settled "string + receipt"
  | Queried "nat list"
  | Released bool
  | NoSuchCall

definition exec_step :: "(string \<Rightarrow> string) \<Rightarrow> engine \<Rightarrow> step \<Rightarrow> engine \<times> step_result" where
  "exec_step sha3 e st =
     (case st of
        NonceStep a rpc \<Rightarrow>
          (let (res, s') = getNonce (manager e) a rpc in (e\<lparr>manager := s'\<rparr>, Nonce res))
      | BeginStep stx a opts startTime \<Rightarrow>
          (let (r, s', ev) = sendTransaction_begin sha3 (manager e) stx a opts startTime
           in (e\<lparr>manager := s', in_flight := (r, a) # in_flight e\<rparr>, Begun r))
      | SettleStep r a out \<Rightarrow>
          (if (r, a) \<in> set (in_flight e)
           then (let (res, s', ev) = sendTransaction_settle (manager e) r a out
                 in (e\<lparr>manager := s', in_flight := removeAll (r, a) (in_flight e)\<rparr>, Settled res))
           else (e, NoSuchCall))
      | QueryStep address limit \<Rightarrow>
          (let (rs, s') = getTransactionHistory (manager e) address limit
           in (e\<lparr>manager := s'\<rparr>, Queried rs))
      | ReleaseStep nonceData \<Rightarrow> (e, Released (release_called nonceData)))"

fun run_steps :: "(string \<Rightarrow> string) \<Rightarrow> engine \<Rightarrow> step list \<Rightarrow> engine \<times> step_result list" where
  "run_steps sha3 e [] = (e, [])"
| "run_steps sha3 e (st # sts) =
     (let (e1, r) = exec_step sha3 e st;
          (e2, rs) = run_steps sha3 e1 sts
      in (e2, r # rs))"

text \<open>The nonces that the calls \<^verbatim>\<open>getNonce(a)\<close> of a run returned, in order.\<close>

fun issued_for :: "address \<Rightarrow> step list \<Rightarrow> step_result list \<Rightarrow> nat list" where
  "issued_for a (NonceStep b rpc # sts) (Nonce (Inr n) # rs) =
     (if a = b then n # issued_for a sts rs else issued_for a sts rs)"
| "issued_for a (st # sts) (r # rs) = issued_for a sts rs"
| "issued_for a sts rs = []"

text \<open>
  A step that runs the \<^verbatim>\<open>catch\<close> branch of \<^verbatim>\<open>sendTransaction\<close> for wallet \<open>a\<close>
  with a message that holds \<^verbatim>\<open>nonce\<close> or \<^verbatim>\<open>underpriced\<close>: the branch that deletes the
  entry of \<open>a\<close> from \<^verbatim>\<open>pendingNonces\<close>.
\<close>

definition desync_message :: "string \<Rightarrow> bool" where
  "desync_message msg = (str_includes msg ''nonce'' \<or> str_includes msg ''underpriced'')"

fun invalidates :: "address \<Rightarrow> step \<Rightarrow> bool" where
  "invalidates a (SettleStep r b out) =
     (a = b \<and> (case promise_race out of Inl msg \<Rightarrow> desync_message msg | Inr rcpt \<Rightarrow> False))"
| "invalidates a st = False"

fun is_begin :: "step \<Rightarrow> bool" where
  "is_begin (BeginStep stx a opts startTime) = True"
| "is_begin st = False"

fun settles :: "nat \<Rightarrow> step \<Rightarrow> bool" where
  "settles r (SettleStep r' a out) = (r = r')"
| "settles r st = False"

definition status_of :: "engine \<Rightarrow> nat \<Rightarrow> tx_status option" where
  "status_of e r = map_option tx_status (objs (manager e) r)"

subsection \<open>Concurrent calls of \<^verbatim>\<open>getNonce\<close> for one address\<close>

text \<open>
  A call of \<^verbatim>\<open>getNonce\<close> is first waiting for \<^verbatim>\<open>getTransactionCount\<close>, then holds
  the count it received, then has returned its nonce. A schedule names, step by step,
  the call that the event loop runs next; \<open>chain a\<close> is the transaction count of \<open>a\<close> on
  the chain. The third component of the configuration lists the returned nonces in the
  order in which the calls returned.
\<close>

datatype nonce_call = Awaiting | Fetched nat | Returned nat

definition call_step ::
  "(address \<Rightarrow> nat) \<Rightarrow> address \<Rightarrow> TransactionManager \<times> nonce_call list \<times> nat list \<Rightarrow> nat
     \<Rightarrow> TransactionManager \<times> nonce_call list \<times> nat list" where
  "call_step chain a cfg i =
     (let (s, calls, order) = cfg
      in if i < length calls
         then (case calls ! i of
                 Awaiting \<Rightarrow> (s, calls[i := Fetched (chain a)], order)
               | Fetched c \<Rightarrow>
                   (let (n, s') = getNonce_resume s a c
                    in (s', calls[i := Returned n], order @ [n]))
               | Returned n \<Rightarrow> (s, calls, order))
         else (s, calls, order))"

definition run_calls ::
  "(address \<Rightarrow> nat) \<Rightarrow> address \<Rightarrow> TransactionManager \<Rightarrow> nat \<Rightarrow> nat list
     \<Rightarrow> TransactionManager \<times> nonce_call list \<times> nat list" where
  "run_calls chain a s n schedule = foldl (call_step chain a) (s, replicate n Awaiting, []) schedule"

fun returned :: "nonce_call \<Rightarrow> nat option" where
  "returned (Returned n) = Some n"
| "returned c = None"

definition all_returned :: "nonce_call list \<Rightarrow> bool" where
  "all_returned calls = list_all (\<lambda>c. returned c \<noteq> None) calls"

text \<open>
  The nonce the allocator is due to issue next: the on-chain count when nothing is
  cached, otherwise the larger of the on-chain count and the cached value (the last
  issued nonce plus one).
\<close>

definition first_nonce :: "TransactionManager \<Rightarrow> address \<Rightarrow> nat \<Rightarrow> nat" where
  "first_nonce s a onChain = (case pendingNonces s a of None \<Rightarrow> onChain | Some p \<Rightarrow> max onChain p)"

section \<open>The retry wrapper \<^verbatim>\<open>sendMonadMintTx\<close>\<close>




datatype bot_message =
    Processing address
  | MintSuccessful string address
  | Retrying nat nat string
  | MintFailed string address
  | MaxSupplyReached
  | ErrorText string
  | NoActiveWallets
  | NoActiveContract
  | BatchStart nat string
  | BatchComplete nat nat
  | SomeMintsFailed

text \<open>
  The effects of a chain of attempts. \<open>Attempt k\<close> marks the entry into the body of
  \<^verbatim>\<open>sendMonadMintTx\<close> with \<^verbatim>\<open>retryCount = k\<close>; \<open>Wait ms\<close> is the awaited
  \<^verbatim>\<open>setTimeout(resolve, ms)\<close>; \<open>Tx\<close> wraps an effect of \<^verbatim>\<open>sendTransaction\<close>;
  \<open>ReleaseCall\<close> is the call \<^verbatim>\<open>nonceData.release()\<close>.
\<close>

datatype mint_event =
    Attempt nat
  | MintAttemptLog nat
  | Bot bot_message
  | Tx event
  | Wait nat
  | LoggerError string
  | UpdateLastUsed address
  | ReleaseCall









text \<open>Reading a trace: the attempts, the waits, and the races that were started.\<close>

fun attempts_of :: "mint_event list \<Rightarrow> nat list" where
  "attempts_of [] = []"
| "attempts_of (Attempt k # es) = k # attempts_of es"
| "attempts_of (e # es) = attempts_of es"

fun waits_of :: "mint_event list \<Rightarrow> nat list" where
  "waits_of [] = []"
| "waits_of (Wait ms # es) = ms # waits_of es"
| "waits_of (e # es) = waits_of es"


fun is_Inr :: "'a + 'b \<Rightarrow> bool" where
  "is_Inr (Inr x) = True"
| "is_Inr (Inl e) = False"



section \<open>The batch handler of \<^verbatim>\<open>/mint\<close>\<close>

text \<open>
  A chain of a batch settles at some time with the receipt or with the error of
  \<^verbatim>\<open>sendMonadMintTx\<close>. \<^verbatim>\<open>Promise.all\<close> rejects as soon as one of its promises
  rejects, with that reason, and otherwise fulfils when the last one has fulfilled, with
  the values in the order of the array. Of two rejections at the same time the one
  earlier in the array is taken.
\<close>

fun first_rejection :: "(nat \<times> (string + 'a)) list \<Rightarrow> (nat \<times> string) option" where
  "first_rejection [] = None"
| "first_rejection ((t, Inr v) # cs) = first_rejection cs"
| "first_rejection ((t, Inl m) # cs) =
     (case first_rejection cs of
        None \<Rightarrow> Some (t, m)
      | Some (t', m') \<Rightarrow> if t' < t then Some (t', m') else Some (t, m))"

fun fulfilled_values :: "(nat \<times> (string + 'a)) list \<Rightarrow> 'a list" where
  "fulfilled_values [] = []"
| "fulfilled_values ((t, Inr v) # cs) = v # fulfilled_values cs"
| "fulfilled_values ((t, Inl m) # cs) = fulfilled_values cs"

definition promise_all :: "(nat \<times> (string + 'a)) list \<Rightarrow> nat \<times> (string + 'a list)" where
  "promise_all cs =
     (case first_rejection cs of
        Some (t, m) \<Rightarrow> (t, Inl m)
      | None \<Rightarrow> (fold max (map fst cs) 0, Inr (fulfilled_values cs)))"

text \<open>A receipt is an object, and an object is truthy: \<^verbatim>\<open>receipts.filter(r => r)\<close>.\<close>

definition receipt_truthy :: "receipt \<Rightarrow> bool" where
  "receipt_truthy r = True"

text \<open>
  The handler (\<^verbatim>\<open>unnamed/part_000\<close>, lines 105 to 129 and 599 to 622;
  \<^verbatim>\<open>2ndindex.js\<close>, lines 195 to 218): the time of its last message, with the
  effects. \<open>chain\<close> gives, for each wallet, when and how its call of
  \<^verbatim>\<open>sendMonadMintTx\<close> settles.
\<close>

definition mint_handler ::
  "nat \<Rightarrow> nat \<Rightarrow> address list \<Rightarrow> string option \<Rightarrow> (address \<Rightarrow> nat \<times> (string + receipt))
     \<Rightarrow> nat \<times> mint_event list" where
  "mint_handler ADMIN_ID sender activeWallets contractAddress chain =
     (if sender \<noteq> ADMIN_ID then (0, [])
      else if activeWallets = [] then (0, [Bot NoActiveWallets])
      else (case contractAddress of
              None \<Rightarrow> (0, [Bot NoActiveContract])
            | Some c \<Rightarrow>
                if c = [] then (0, [Bot NoActiveContract])
                else (case promise_all (map chain activeWallets) of
                        (t, Inr receipts) \<Rightarrow>
                          (t, [Bot (BatchStart (length activeWallets) (take 8 c)),
                               Bot (BatchComplete (length (filter receipt_truthy receipts))
                                                  (length activeWallets))])
                      | (t, Inl msg) \<Rightarrow>
                          (t, [Bot (BatchStart (length activeWallets) (take 8 c)),
                               LoggerError msg, Bot SomeMintsFailed]))))"

text \<open>The report the specification describes: successes out of the total.\<close>

definition success_count :: "(nat \<times> (string + receipt)) list \<Rightarrow> nat" where
  "success_count cs = length (filter (\<lambda>c. is_Inr (snd c)) cs)"

text \<open>
  The effects of \<^verbatim>\<open>sendTransaction\<close> whose order the specification fixes: the hash,
  the writes of the history file, the race and the write of the status. The other
  events are the array operations and the log lines around them.
\<close>

fun ordered_effect :: "event \<Rightarrow> bool" where
  "ordered_effect (Sha3 raw) = True"
| "ordered_effect (SaveHistory recs) = True"
| "ordered_effect (Race raw timeout) = True"
| "ordered_effect (SetStatus r st) = True"
| "ordered_effect e = False"

fun status_writes :: "event list \<Rightarrow> (nat \<times> tx_status) list" where
  "status_writes [] = []"
| "status_writes (SetStatus r st # es) = (r, st) # status_writes es"
| "status_writes (e # es) = status_writes es"

section \<open>Example inputs\<close>

text \<open>
  Concrete values on which the theorems below are instantiated. \<open>ex_sha3\<close> stands for
  \<^verbatim>\<open>web3.utils.sha3\<close>, which the theorems take as a parameter.
\<close>

definition ex_sha3 :: "string \<Rightarrow> string" where
  "ex_sha3 raw = ''h:'' @ raw"

definition ex_receipt :: receipt where
  "ex_receipt = \<lparr>transactionHash = ''h:f86b'', blockNumber = 7, gasUsed = 21000\<rparr>"

definition ex_stx :: signedTx where
  "ex_stx = \<lparr>rawTransaction = ''f86b''\<rparr>"

definition ex_opts :: options where
  "ex_opts = \<lparr>opt_to = JStr ''0xC0'', opt_gasPrice = JStr ''1000000000'',
              opt_gasLimit = JNum 500000, opt_timeout = JNum 120000\<rparr>"

text \<open>A manager whose last issued nonce for \<^verbatim>\<open>0xAbC\<close> is 7.\<close>

definition ex_manager :: TransactionManager where
  "ex_manager = new_TransactionManager\<lparr>pendingNonces := (\<lambda>a. None)(''0xAbC'' := Some 8)\<rparr>"

text \<open>Two complete calls of \<^verbatim>\<open>sendTransaction\<close> on that manager.\<close>

definition ex_send_ok :: "(string + receipt) \<times> TransactionManager \<times> event list" where
  "ex_send_ok =
     sendTransaction ex_sha3 ex_manager ex_stx ''0xAbC'' ex_opts 1000 (BroadcastFirst (Resolved ex_receipt))"

definition ex_send_underpriced :: "(string + receipt) \<times> TransactionManager \<times> event list" where
  "ex_send_underpriced =
     sendTransaction ex_sha3 ex_manager ex_stx ''0xAbC'' ex_opts 1000
       (BroadcastFirst (Rejected ''replacement transaction underpriced''))"

text \<open>The record of these calls while it is pending.\<close>

definition ex_pending :: tx_record where
  "ex_pending =
     \<lparr>tx_hash = ''h:f86b'', tx_from = ''0xAbC'', tx_to = JStr ''0xC0'', tx_timestamp = 1000,
      tx_status = Pending, tx_gasPrice = JStr ''1000000000'', tx_gasLimit = JNum 500000,
      tx_blockNumber = None, tx_gasUsed = None, tx_error = None\<rparr>"


text \<open>
  The invariant of a run of concurrent calls of \<^verbatim>\<open>getNonce\<close> for one address:
  every count received is the on-chain count, the nonces returned so far are, in the
  order of their return, a contiguous run from the first nonce, and the cache holds the
  end of that run.
\<close>

definition alloc_inv ::
  "(address \<Rightarrow> nat) \<Rightarrow> address \<Rightarrow> TransactionManager \<Rightarrow> nat
     \<Rightarrow> TransactionManager \<times> nonce_call list \<times> nat list \<Rightarrow> bool" where
  "alloc_inv chain a s n cfg =
     (case cfg of (s', calls, order) \<Rightarrow>
        length calls = n
        \<and> (\<forall>x. Fetched x \<in> set calls \<longrightarrow> x = chain a)
        \<and> mset (List.map_filter returned calls) = mset order
        \<and> order = [first_nonce s a (chain a) ..< first_nonce s a (chain a) + length order]
        \<and> pendingNonces s' a =
            (if order = [] then pendingNonces s a
             else Some (first_nonce s a (chain a) + length order)))"

text \<open>How far a call of \<^verbatim>\<open>getNonce\<close> has come.\<close>

definition rank :: "nonce_call \<Rightarrow> nat" where
  "rank c = (case c of Awaiting \<Rightarrow> 0 | Fetched x \<Rightarrow> 1 | Returned v \<Rightarrow> 2)"

text \<open>An engine on the example manager with no call in flight, and two runs on it.\<close>

definition ex_engine :: engine where
  "ex_engine = \<lparr>manager = ex_manager, in_flight = []\<rparr>"

definition ex_steps_timeout :: "step list" where
  "ex_steps_timeout =
     [NonceStep ''0xAbC'' (Inr 5), BeginStep ex_stx ''0xAbC'' ex_opts 1000,
      SettleStep 0 ''0xAbC'' (TimerFirst None), ReleaseStep 8, NonceStep ''0xAbC'' (Inr 5)]"

definition ex_steps_underpriced :: "step list" where
  "ex_steps_underpriced =
     [BeginStep ex_stx ''0xAbC'' ex_opts 1000,
      SettleStep 0 ''0xAbC'' (BroadcastFirst (Rejected ''replacement transaction underpriced'')),
      NonceStep ''0xAbC'' (Inr 5)]"

text \<open>
  A call of \<^verbatim>\<open>sendTransaction\<close> that holds reference \<open>r\<close> for wallet \<open>a\<close> is
  suspended at its \<^verbatim>\<open>await\<close>; later it has finished. No other call holds \<open>r\<close>.
\<close>

definition call_suspended :: "nat \<Rightarrow> address \<Rightarrow> engine \<Rightarrow> bool" where
  "call_suspended r a e =
     (r < next_obj (manager e) \<and> (r, a) \<in> set (in_flight e)
      \<and> (\<forall>b. (r, b) \<in> set (in_flight e) \<longrightarrow> b = a))"

definition call_finished :: "nat \<Rightarrow> engine \<Rightarrow> bool" where
  "call_finished r e = (r < next_obj (manager e) \<and> r \<notin> fst ` set (in_flight e))"

text \<open>Every suspended call holds a reference that has been handed out.\<close>

definition engine_ok :: "engine \<Rightarrow> bool" where
  "engine_ok e = (\<forall>x \<in> set (in_flight e). fst x < next_obj (manager e))"

text \<open>
  A batch of 101 wallets: the call for the first wallet begins, the calls for the other
  100 wallets begin while it waits for its broadcast, then its broadcast resolves.
\<close>

definition ex_stx2 :: signedTx where
  "ex_stx2 = \<lparr>rawTransaction = ''f86c''\<rparr>"

definition ex_steps_evicted :: "step list" where
  "ex_steps_evicted =
     BeginStep ex_stx ''0xAbC'' ex_opts 1000
     # replicate 100 (BeginStep ex_stx2 ''0xD1'' ex_opts 2000)
     @ [SettleStep 0 ''0xAbC'' (BroadcastFirst (Resolved ex_receipt))]"

text \<open>The terminal status that the outcome of the race gives a record.\<close>

definition terminal :: "race_outcome \<Rightarrow> tx_status" where
  "terminal out = (if is_Inr (promise_race out) then Confirmed else Failed)"

text \<open>
  A call for \<^verbatim>\<open>0xAbC\<close> that times out while a second call begins, and the states of
  the engine along the way.
\<close>

definition ex_between :: "step list" where
  "ex_between = [NonceStep ''0xAbC'' (Inr 5), BeginStep ex_stx2 ''0xD1'' ex_opts 2000]"

definition ex_later :: "step list" where
  "ex_later = [SettleStep 1 ''0xD1'' (BroadcastFirst (Resolved ex_receipt))]"

definition ex_e1 :: engine where
  "ex_e1 = fst (exec_step ex_sha3 ex_engine (BeginStep ex_stx ''0xAbC'' ex_opts 1000))"

definition ex_e2 :: engine where
  "ex_e2 = fst (run_steps ex_sha3 ex_e1 ex_between)"

definition ex_e3 :: engine where
  "ex_e3 = fst (exec_step ex_sha3 ex_e2 (SettleStep 0 ''0xAbC'' (TimerFirst None)))"

definition ex_e4 :: engine where
  "ex_e4 = fst (run_steps ex_sha3 ex_e3 ex_later)"

text \<open>The broadcasts of a trace: the races that \<^verbatim>\<open>sendTransaction\<close> started.\<close>

fun broadcasts_of :: "mint_event list \<Rightarrow> nat" where
  "broadcasts_of [] = 0"
| "broadcasts_of (Tx (Race raw timeout) # es) = Suc (broadcasts_of es)"
| "broadcasts_of (e # es) = broadcasts_of es"






text \<open>The record \<open>x\<close> after the \<^verbatim>\<open>try\<close> or the \<^verbatim>\<open>catch\<close> branch has written to it.\<close>

definition settled_record :: "tx_record \<Rightarrow> race_outcome \<Rightarrow> tx_record" where
  "settled_record x out =
     (case promise_race out of
        Inr rcpt \<Rightarrow> x\<lparr>tx_status := Confirmed, tx_blockNumber := Some (blockNumber rcpt),
                      tx_gasUsed := Some (gasUsed rcpt)\<rparr>
      | Inl msg \<Rightarrow> x\<lparr>tx_status := Failed, tx_error := Some msg\<rparr>)"

text \<open>
  The batch of 101 wallets when the 101 calls have begun and none has completed, and
  the completion by timeout of the call for \<^verbatim>\<open>0xAbC\<close> in the smaller example.
\<close>

definition ex_batch :: engine where
  "ex_batch =
     fst (run_steps ex_sha3 ex_engine
            (BeginStep ex_stx ''0xAbC'' ex_opts 1000
             # replicate 100 (BeginStep ex_stx2 ''0xD1'' ex_opts 2000)))"

definition ex_settle_timeout :: "(string + receipt) \<times> TransactionManager \<times> event list" where
  "ex_settle_timeout = sendTransaction_settle (manager ex_e2) 0 ''0xAbC'' (TimerFirst None)"

text \<open>
  Batches of three wallets: two chains succeed and the third exhausts its retries;
  all three fail; the first fails early while the others are still running.
\<close>

definition ex_wallets :: "address list" where
  "ex_wallets = [''0xW1'', ''0xW2'', ''0xW3'']"

definition ex_chain_partial :: "address \<Rightarrow> nat \<times> (string + receipt)" where
  "ex_chain_partial w =
     (if w = ''0xW1'' then (5, Inr ex_receipt)
      else if w = ''0xW2'' then (6, Inr ex_receipt)
      else (20, Inl ''Network error''))"

definition ex_chain_total :: "address \<Rightarrow> nat \<times> (string + receipt)" where
  "ex_chain_total w = (20, Inl ''Network error'')"

definition ex_chain_early :: "address \<Rightarrow> nat \<times> (string + receipt)" where
  "ex_chain_early w =
     (if w = ''0xW1'' then (3, Inl ''Network error'')
      else if w = ''0xW2'' then (50, Inr ex_receipt)
      else (60, Inr ex_receipt))"

section \<open>Properties of the transaction manager\<close>


lemma lower_char_variant: "case_variant c d \<Longrightarrow> lower_char c = lower_char d"
proof -
  have up: "lower_char x = y \<and> lower_char y = y"
    if "is_upper x" and "(of_char y :: nat) = of_char x + 32" for x y
  proof -
    have "char_of ((of_char x :: nat) + 32) = char_of (of_char y :: nat)"
      using that(2) by simp
    then have "lower_char x = y"
      using that(1) by (simp add: lower_char_def)
    moreover have "\<not> is_upper y"
      using that by (simp add: is_upper_def)
    ultimately show ?thesis
      by (simp add: lower_char_def)
  qed
  assume "case_variant c d"
  then consider "c = d" | "is_upper c \<and> (of_char d :: nat) = of_char c + 32"
    | "is_upper d \<and> (of_char c :: nat) = of_char d + 32"
    unfolding case_variant_def by blast
  then show ?thesis
  proof cases
    case 1 then show ?thesis by simp
  next
    case 2 then show ?thesis using up [of c d] by simp
  next
    case 3 then show ?thesis using up [of d c] by simp
  qed
qed

lemma toLowerCase_variant: "differ_only_in_case a b \<Longrightarrow> toLowerCase a = toLowerCase b"
  unfolding differ_only_in_case_def toLowerCase_def
  by (induction a b rule: list_all2_induct) (auto dest: lower_char_variant)

lemma differ_only_in_case_Nil: "differ_only_in_case a b \<Longrightarrow> (a = []) = (b = [])"
  unfolding differ_only_in_case_def by (cases a; cases b) auto

text \<open>
  Claim C10. For every history, every limit \<open>n\<close> and every two address strings \<open>a\<close>,
  \<open>b\<close> that differ only in letter case, \<^verbatim>\<open>getTransactionHistory(a, n)\<close> and
  \<^verbatim>\<open>getTransactionHistory(b, n)\<close> return the same sequence; the filter compares the
  \<^verbatim>\<open>from\<close> field of a record with the address after lower-casing both; and the query
  leaves the manager unchanged.
\<close>

theorem history_query_ignores_case:
  assumes "differ_only_in_case a b"
  shows "getTransactionHistory s (Some a) n = getTransactionHistory s (Some b) n
       \<and> snd (getTransactionHistory s (Some a) n) = s
       \<and> (a \<noteq> [] \<longrightarrow> fst (getTransactionHistory s (Some a) n) =
             slice0 (filter (\<lambda>r. \<exists>t. objs s r = Some t \<and> toLowerCase (tx_from t) = toLowerCase a)
                       (txHistory s)) n)"
proof -
  have m: "from_matches s a = from_matches s b"
    using toLowerCase_variant [OF assms] by (auto simp: from_matches_def fun_eq_iff split: option.splits)
  have f: "from_matches s a = (\<lambda>r. \<exists>t. objs s r = Some t \<and> toLowerCase (tx_from t) = toLowerCase a)"
    by (auto simp: from_matches_def fun_eq_iff split: option.splits)
  show ?thesis
    using differ_only_in_case_Nil [OF assms] m f
    by (simp add: getTransactionHistory_def)
qed

lemma settle_failure:
  assumes "sendTransaction_settle s r a out = (Inl msg, s', ev)"
  shows "promise_race out = Inl msg"
    and "pendingNonces s' = (if desync_message msg then (pendingNonces s)(a := None) else pendingNonces s)"
  using assms
  by (auto simp: sendTransaction_settle_def Let_def update_obj_def desync_message_def split: sum.splits if_splits)

lemma begin_pendingNonces:
  "sendTransaction_begin sha3 s stx a opts t = (r, s', ev) \<Longrightarrow> pendingNonces s' = pendingNonces s"
  by (auto simp: sendTransaction_begin_def Let_def split: if_splits)

text \<open>
  Claim C8. When \<^verbatim>\<open>sendTransaction\<close> fails with a message that contains
  \<^verbatim>\<open>nonce\<close> or \<^verbatim>\<open>underpriced\<close>, the entry of the sending address is removed from
  \<^verbatim>\<open>pendingNonces\<close> within the call that returns the error, so that the next
  \<^verbatim>\<open>getNonce\<close> for the address returns the on-chain count; on every other failure
  \<^verbatim>\<open>pendingNonces\<close> is what it was before the call.
\<close>

theorem failure_invalidates_cached_nonce:
  assumes "sendTransaction sha3 s stx a opts t out = (Inl msg, s', ev)"
  shows "(str_includes msg ''nonce'' \<or> str_includes msg ''underpriced''
            \<longrightarrow> pendingNonces s' = (pendingNonces s)(a := None)
                \<and> DeleteNonce a \<in> set ev
                \<and> (\<forall>onChain. getNonce s' a (Inr onChain) = (Inr onChain, s'\<lparr>pendingNonces := (pendingNonces s')(a := Some (onChain + 1))\<rparr>)))
       \<and> (\<not> (str_includes msg ''nonce'' \<or> str_includes msg ''underpriced'')
            \<longrightarrow> pendingNonces s' = pendingNonces s \<and> DeleteNonce a \<notin> set ev)"
proof -
  obtain r s1 ev1 where b: "sendTransaction_begin sha3 s stx a opts t = (r, s1, ev1)"
    by (metis prod_cases3)
  obtain res s2 ev2 where st: "sendTransaction_settle s1 r a out = (res, s2, ev2)"
    by (metis prod_cases3)
  from assms b st have res: "res = Inl msg" "s2 = s'" "ev = ev1 @ ev2"
    by (simp_all add: sendTransaction_def)
  have p1: "pendingNonces s1 = pendingNonces s"
    using b by (rule begin_pendingNonces)
  have ev1: "DeleteNonce a \<notin> set ev1"
    using b by (auto simp: sendTransaction_begin_def Let_def split: if_splits)
  have ev2: "(DeleteNonce a \<in> set ev2) = desync_message msg"
    using st res(1)
    by (auto simp: sendTransaction_settle_def Let_def desync_message_def split: sum.splits if_splits)
  have p2: "pendingNonces s' = (if desync_message msg then (pendingNonces s)(a := None) else pendingNonces s)"
    using settle_failure(2) [of s1 r a out msg s' ev2] st res p1 by simp
  show ?thesis
    using p2 ev1 ev2 res(3)
    by (auto simp: desync_message_def getNonce_def getNonce_resume_def Let_def)
qed




lemma snapshot_hd:
  "txHistory s = r # hs \<Longrightarrow> objs s r = Some x \<Longrightarrow> snapshot s = x # List.map_filter (objs s) hs"
  by (simp add: snapshot_def)

lemma begin_head:
  assumes "sendTransaction_begin sha3 s stx a opts t = (r, s1, ev1)"
  shows "\<exists>hs. txHistory s1 = r # hs"
  using assms
  by (cases "txHistory s") (auto simp: sendTransaction_begin_def Let_def maxHistoryItems_def split: if_splits)

lemma begin_record:
  assumes "sendTransaction_begin sha3 s stx a opts t = (r, s1, ev1)"
  shows "objs s1 r = Some (txRecord (sha3 (rawTransaction stx)) a opts t)"
  using assms
  by (auto simp: sendTransaction_begin_def Let_def split: if_splits)

lemma begin_effects:
  assumes "sendTransaction_begin sha3 s stx a opts t = (r, s1, ev1)"
  shows "filter ordered_effect ev1 =
           [Sha3 (rawTransaction stx), SaveHistory (snapshot s1),
            Race (rawTransaction stx) (js_or (opt_timeout opts) (JNum 120000))]"
    and "status_writes ev1 = []"
  using assms
  by (auto simp: sendTransaction_begin_def Let_def split: if_splits)

lemma settle_effects:
  assumes "sendTransaction_settle s1 r a out = (res, s2, ev2)"
  shows "txHistory s2 = txHistory s1"
    and "next_obj s2 = next_obj s1"
    and "snapshot s2 = List.map_filter (objs s2) (txHistory s1)"
    and "\<And>x. x \<noteq> r \<Longrightarrow> objs s2 x = objs s1 x"
    and "\<exists>st. filter ordered_effect ev2 = [SetStatus r st, SaveHistory (snapshot s2)]
             \<and> status_writes ev2 = [(r, st)]
             \<and> (case promise_race out of
                   Inr rcpt \<Rightarrow> res = Inr rcpt \<and> st = Confirmed
                     \<and> objs s2 r = map_option (\<lambda>x. x\<lparr>tx_status := Confirmed,
                          tx_blockNumber := Some (blockNumber rcpt), tx_gasUsed := Some (gasUsed rcpt)\<rparr>) (objs s1 r)
                 | Inl msg \<Rightarrow> res = Inl msg \<and> st = Failed
                     \<and> objs s2 r = map_option (\<lambda>x. x\<lparr>tx_status := Failed, tx_error := Some msg\<rparr>) (objs s1 r))"
  using assms
  by (auto simp: sendTransaction_settle_def Let_def update_obj_def snapshot_def split: sum.splits if_splits)

lemmas ex_defs = ex_sha3_def ex_receipt_def ex_stx_def ex_opts_def ex_manager_def
  new_TransactionManager_def ex_pending_def

lemmas send_defs = sendTransaction_def sendTransaction_begin_def sendTransaction_settle_def
  txRecord_def promise_race_def update_obj_def snapshot_def js_or_def maxHistoryItems_def Let_def

text \<open>Instances of the theorems above on the example inputs.\<close>

theorem failure_invalidates_cached_nonce_witness:
  "fst ex_send_underpriced = Inl ''replacement transaction underpriced''
   \<and> pendingNonces ex_manager ''0xAbC'' = Some 8
   \<and> pendingNonces (fst (snd ex_send_underpriced)) ''0xAbC'' = None
   \<and> fst (getNonce (fst (snd ex_send_underpriced)) ''0xAbC'' (Inr 5)) = Inr 5"
proof -
  have h: "sendTransaction ex_sha3 ex_manager ex_stx ''0xAbC'' ex_opts 1000
             (BroadcastFirst (Rejected ''replacement transaction underpriced''))
            = (Inl ''replacement transaction underpriced'', fst (snd ex_send_underpriced), snd (snd ex_send_underpriced))"
    by (simp add: ex_send_underpriced_def ex_defs send_defs)
  show ?thesis
    using failure_invalidates_cached_nonce [OF h]
    by (simp add: ex_send_underpriced_def ex_defs send_defs getNonce_def getNonce_resume_def)
qed



lemma lower_examples: "toLowerCase ''0xAbC'' = ''0xabc''" "toLowerCase ''0xABC'' = ''0xabc''"
  by code_simp+

theorem history_query_ignores_case_witness:
  "differ_only_in_case ''0xAbC'' ''0xABC''
   \<and> fst (getTransactionHistory (fst (snd ex_send_ok)) (Some ''0xAbC'') 10) = [0]
   \<and> fst (getTransactionHistory (fst (snd ex_send_ok)) (Some ''0xABC'') 10) = [0]"
proof -
  have d: "differ_only_in_case ''0xAbC'' ''0xABC''"
    by (simp add: differ_only_in_case_def case_variant_def is_upper_def)
  have "fst (getTransactionHistory (fst (snd ex_send_ok)) (Some ''0xAbC'') 10) = [0]"
    by (simp add: ex_send_ok_def ex_defs send_defs getTransactionHistory_def from_matches_def slice0_def)
  then show ?thesis
    using history_query_ignores_case [OF d, of "fst (snd ex_send_ok)" 10] d
    by simp
qed

section \<open>Concurrent nonce allocation\<close>

lemma map_filter_update_none:
  "i < length xs \<Longrightarrow> f (xs ! i) = None \<Longrightarrow> f y = None
     \<Longrightarrow> List.map_filter f (xs[i := y]) = List.map_filter f xs"
proof (induction xs arbitrary: i)
  case Nil
  then show ?case by simp
next
  case (Cons x xs)
  then show ?case by (cases i) (auto split: option.splits)
qed

lemma map_filter_update_some:
  "i < length xs \<Longrightarrow> f (xs ! i) = None \<Longrightarrow> f y = Some v
     \<Longrightarrow> mset (List.map_filter f (xs[i := y])) = add_mset v (mset (List.map_filter f xs))"
proof (induction xs arbitrary: i)
  case Nil
  then show ?case by simp
next
  case (Cons x xs)
  then show ?case by (cases i) (auto split: option.splits)
qed

lemma first_nonce_ge: "onChain \<le> first_nonce s a onChain"
  by (simp add: first_nonce_def split: option.splits)

lemma resume_first:
  "getNonce_resume s a onChain =
     (first_nonce s a onChain, s\<lparr>pendingNonces := (pendingNonces s)(a := Some (first_nonce s a onChain + 1))\<rparr>)"
  by (auto simp: getNonce_resume_def first_nonce_def Let_def split: option.splits)

lemma alloc_inv_init: "alloc_inv chain a s n (s, replicate n Awaiting, [])"
  by (simp add: alloc_inv_def map_filter_def)

lemma alloc_inv_step:
  assumes inv: "alloc_inv chain a s n cfg"
  shows "alloc_inv chain a s n (call_step chain a cfg i)"
proof -
  obtain s' calls order where cfg: "cfg = (s', calls, order)"
    by (metis prod_cases3)
  let ?f = "first_nonce s a (chain a)"
  from inv cfg have len: "length calls = n"
    and fetched: "\<And>x. Fetched x \<in> set calls \<Longrightarrow> x = chain a"
    and ms: "mset (List.map_filter returned calls) = mset order"
    and ord: "order = [?f ..< ?f + length order]"
    and pend: "pendingNonces s' a = (if order = [] then pendingNonces s a else Some (?f + length order))"
    by (simp_all add: alloc_inv_def)
  show ?thesis
  proof (cases "i < length calls")
    case False
    then show ?thesis using inv cfg by (simp add: call_step_def)
  next
    case True
    show ?thesis
    proof (cases "calls ! i")
      case Awaiting
      have "\<And>x. Fetched x \<in> set (calls[i := Fetched (chain a)]) \<Longrightarrow> x = chain a"
        using fetched by (auto dest!: set_update_subset_insert [THEN subsetD])
      then show ?thesis
        using True Awaiting cfg len ms ord pend
        by (simp add: call_step_def alloc_inv_def map_filter_update_none)
    next
      case (Returned v)
      then show ?thesis using True inv cfg by (simp add: call_step_def)
    next
      case (Fetched c)
      then have c: "c = chain a"
        using fetched True by (metis nth_mem)
      have nonce: "first_nonce s' a c = ?f + length order"
      proof (cases "order = []")
        case True
        then show ?thesis using pend c by (simp add: first_nonce_def)
      next
        case False
        then have "pendingNonces s' a = Some (?f + length order)"
          using pend by simp
        then show ?thesis
          using first_nonce_ge [of "chain a" s a] c by (simp add: first_nonce_def)
      qed
      have ord': "order @ [?f + length order] = [?f ..< ?f + length (order @ [?f + length order])]"
        using ord by (metis add_Suc_right le_add1 length_append_singleton upt_Suc_append)
      have fetched': "\<And>x. Fetched x \<in> set (calls[i := nonce_call.Returned (?f + length order)]) \<Longrightarrow> x = chain a"
        using fetched by (auto dest!: set_update_subset_insert [THEN subsetD])
      have ms': "mset (List.map_filter returned (calls[i := nonce_call.Returned (?f + length order)]))
                  = mset (order @ [?f + length order])"
        using map_filter_update_some [of i calls returned "nonce_call.Returned (?f + length order)" "?f + length order"]
          True Fetched ms by simp
      have step: "call_step chain a cfg i =
          (s'\<lparr>pendingNonces := (pendingNonces s')(a := Some (?f + length order + 1))\<rparr>,
           calls[i := nonce_call.Returned (?f + length order)], order @ [?f + length order])"
        using True Fetched cfg nonce by (simp add: call_step_def resume_first)
      show ?thesis
        unfolding step alloc_inv_def
        using len fetched' ms' ord' by simp
    qed
  qed
qed

lemma alloc_inv_foldl:
  "alloc_inv chain a s n cfg \<Longrightarrow> alloc_inv chain a s n (foldl (call_step chain a) cfg schedule)"
  by (induction schedule arbitrary: cfg) (simp_all add: alloc_inv_step)

lemma all_returned_map:
  "all_returned calls \<Longrightarrow> calls = map Returned (List.map_filter returned calls)"
proof (induction calls)
  case Nil
  then show ?case by (simp add: map_filter_def)
next
  case (Cons c cs)
  then show ?case by (cases c) (auto simp: all_returned_def)
qed

text \<open>
  Claim C1. Let \<open>n\<close> calls of \<^verbatim>\<open>getNonce\<close> for one address \<open>a\<close> run
  concurrently, interleaved in any order at their \<^verbatim>\<open>await\<close>, while the on-chain
  count of \<open>a\<close> stays \<open>chain a\<close>. When all of them have returned, the nonces are
  pairwise distinct and are exactly the contiguous run of length \<open>n\<close> that starts at
  the maximum of the on-chain count and the last issued nonce plus one (at the on-chain
  count when none was issued), and the calls return them in ascending order.
\<close>

theorem concurrent_allocations_contiguous:
  assumes run: "run_calls chain a s n schedule = (s', calls, order)"
    and fin: "all_returned calls"
  shows "length calls = n \<and> distinct calls
       \<and> set calls = Returned ` {first_nonce s a (chain a) ..< first_nonce s a (chain a) + n}
       \<and> order = [first_nonce s a (chain a) ..< first_nonce s a (chain a) + n]
       \<and> (\<forall>lastIssued. pendingNonces s a = Some (lastIssued + 1)
             \<longrightarrow> first_nonce s a (chain a) = max (chain a) (lastIssued + 1))
       \<and> (pendingNonces s a = None \<longrightarrow> first_nonce s a (chain a) = chain a)"
proof -
  let ?f = "first_nonce s a (chain a)"
  let ?vs = "List.map_filter returned calls"
  have "alloc_inv chain a s n (s', calls, order)"
    using alloc_inv_foldl [OF alloc_inv_init, of chain a s n schedule] run
    by (simp add: run_calls_def)
  then have len: "length calls = n"
    and ms: "mset ?vs = mset order"
    and ord: "order = [?f ..< ?f + length order]"
    by (simp_all add: alloc_inv_def)
  have calls: "calls = map Returned ?vs"
    using all_returned_map [OF fin] .
  have "length ?vs = n"
    using calls len by (metis length_map)
  then have lo: "length order = n"
    using ms by (metis size_mset)
  have ord': "order = [?f ..< ?f + n]"
    using ord lo by simp
  have "distinct order"
    using ord' by (metis distinct_upt)
  then have dv: "distinct ?vs"
    using ms by (metis mset_eq_imp_distinct_iff)
  have sv: "set ?vs = {?f ..< ?f + n}"
    using ms ord' by (metis mset_eq_setD atLeastLessThan_upt)
  have d: "distinct calls"
    using dv calls by (metis distinct_map inj_on_def nonce_call.inject(2))
  have st: "set calls = Returned ` {?f ..< ?f + n}"
    using sv calls by (metis set_map)
  show ?thesis
    using len d st ord' by (simp add: first_nonce_def)
qed

lemma call_step_length:
  assumes "call_step chain a (s, calls, order) j = (s', calls', order')"
  shows "length calls' = length calls"
  using assms
  by (auto simp: call_step_def Let_def resume_first split: nonce_call.splits if_splits)

lemma call_step_rank:
  assumes "call_step chain a (s, calls, order) j = (s', calls', order')" and "i < length calls"
  shows "rank (calls' ! i) = (if i = j then min 2 (rank (calls ! i) + 1) else rank (calls ! i))"
proof (cases "i = j")
  case True
  then show ?thesis
    using assms
    by (cases "calls ! j") (auto simp: call_step_def rank_def Let_def resume_first)
next
  case False
  then show ?thesis
    using assms
    by (auto simp: call_step_def rank_def Let_def resume_first nth_list_update
             split: nonce_call.splits if_splits)
qed

lemma foldl_length:
  "foldl (call_step chain a) (s, calls, order) schedule = (s', calls', order')
     \<Longrightarrow> length calls' = length calls"
proof (induction schedule arbitrary: s calls order)
  case Nil
  then show ?case by simp
next
  case (Cons j js)
  obtain s1 calls1 order1 where st: "call_step chain a (s, calls, order) j = (s1, calls1, order1)"
    by (metis prod_cases3)
  have "foldl (call_step chain a) (s1, calls1, order1) js = (s', calls', order')"
    using Cons.prems st by simp
  from Cons.IH [OF this] call_step_length [OF st]
  show ?case by simp
qed

lemma foldl_progress:
  assumes "foldl (call_step chain a) (s, calls, order) schedule = (s', calls', order')"
    and "i < length calls"
  shows "rank (calls' ! i) = min 2 (rank (calls ! i) + count_list schedule i)"
  using assms
proof (induction schedule arbitrary: s calls order)
  case Nil
  then show ?case by (cases "calls ! i") (auto simp: rank_def)
next
  case (Cons j js)
  obtain s1 calls1 order1 where st: "call_step chain a (s, calls, order) j = (s1, calls1, order1)"
    by (metis prod_cases3)
  have l: "i < length calls1"
    using call_step_length [OF st] Cons.prems(2) by simp
  have "foldl (call_step chain a) (s1, calls1, order1) js = (s', calls', order')"
    using Cons.prems(1) st by simp
  from Cons.IH [OF this l] call_step_rank [OF st Cons.prems(2)]
  show ?case by auto
qed

text \<open>A call that the schedule runs at least twice has returned.\<close>

lemma every_call_returns:
  assumes run: "run_calls chain a s n schedule = (s', calls, order)"
    and twice: "\<forall>i < n. 2 \<le> count_list schedule i"
  shows "all_returned calls"
proof -
  have f: "foldl (call_step chain a) (s, replicate n Awaiting, []) schedule = (s', calls, order)"
    using run by (simp add: run_calls_def)
  have len: "length calls = n"
    using foldl_length [OF f] by simp
  have "returned (calls ! i) \<noteq> None" if "i < n" for i
  proof -
    have "rank (calls ! i) = 2"
      using foldl_progress [OF f, of i] that twice by (auto simp: rank_def)
    then show ?thesis
      by (cases "calls ! i") (auto simp: rank_def)
  qed
  then show ?thesis
    using len by (auto simp: all_returned_def list_all_length)
qed

theorem concurrent_allocations_contiguous_witness:
  "run_calls (\<lambda>a. 5) ''0xAbC'' ex_manager 3 [0, 1, 1, 2, 0, 2]
     = (ex_manager\<lparr>pendingNonces := (pendingNonces ex_manager)(''0xAbC'' := Some 11)\<rparr>,
        [Returned 9, Returned 8, Returned 10], [8, 9, 10])
   \<and> all_returned [Returned 9, Returned 8, Returned 10]
   \<and> first_nonce ex_manager ''0xAbC'' 5 = 8"
proof -
  have run: "run_calls (\<lambda>a. 5) ''0xAbC'' ex_manager 3 [0, 1, 1, 2, 0, 2]
     = (ex_manager\<lparr>pendingNonces := (pendingNonces ex_manager)(''0xAbC'' := Some 11)\<rparr>,
        [Returned 9, Returned 8, Returned 10], [8, 9, 10])"
    by (simp add: run_calls_def call_step_def getNonce_resume_def ex_manager_def
          new_TransactionManager_def numeral_3_eq_3)
  have fin: "all_returned [Returned 9, Returned 8, Returned 10]"
    by (simp add: all_returned_def)
  show ?thesis
    using concurrent_allocations_contiguous [OF run fin] run fin
    by (simp add: first_nonce_def ex_manager_def new_TransactionManager_def)
qed

section \<open>Steps of the event loop\<close>

subsection \<open>What one step changes\<close>

lemma getNonce_frame [simp]:
  "txHistory (snd (getNonce s a rpc)) = txHistory s"
  "objs (snd (getNonce s a rpc)) = objs s"
  "next_obj (snd (getNonce s a rpc)) = next_obj s"
  by (auto simp: getNonce_def resume_first split: sum.splits)

lemma begin_frame [simp]:
  "fst (sendTransaction_begin sha3 s stx a opts t) = next_obj s"
  "next_obj (fst (snd (sendTransaction_begin sha3 s stx a opts t))) = Suc (next_obj s)"
  "x \<noteq> next_obj s \<Longrightarrow> objs (fst (snd (sendTransaction_begin sha3 s stx a opts t))) x = objs s x"
  "objs (fst (snd (sendTransaction_begin sha3 s stx a opts t))) (next_obj s) =
     Some (txRecord (sha3 (rawTransaction stx)) a opts t)"
  by (auto simp: sendTransaction_begin_def Let_def)

lemma begin_txHistory:
  "txHistory (fst (snd (sendTransaction_begin sha3 s stx a opts t))) =
     (if length (txHistory s) < maxHistoryItems then next_obj s # txHistory s
      else butlast (next_obj s # txHistory s))"
  by (auto simp: sendTransaction_begin_def Let_def)

lemma settle_frame [simp]:
  "txHistory (fst (snd (sendTransaction_settle s r a out))) = txHistory s"
  "next_obj (fst (snd (sendTransaction_settle s r a out))) = next_obj s"
  "x \<noteq> r \<Longrightarrow> objs (fst (snd (sendTransaction_settle s r a out))) x = objs s x"
  "fst (sendTransaction_settle s r a out) = promise_race out"
  by (cases "promise_race out"; simp add: sendTransaction_settle_def Let_def update_obj_def)+

lemma settle_status:
  "map_option tx_status (objs (fst (snd (sendTransaction_settle s r a out))) r) =
     map_option (\<lambda>st. if is_Inr (promise_race out) then Confirmed else Failed)
       (map_option tx_status (objs s r))"
  by (cases "promise_race out"; cases "objs s r";
      simp add: sendTransaction_settle_def Let_def update_obj_def)

lemma query_frame: "snd (getTransactionHistory s address limit) = s"
  by (simp add: getTransactionHistory_def split: option.splits)

text \<open>The steps, one equation each.\<close>

lemma exec_NonceStep:
  "exec_step sha3 e (NonceStep a rpc) =
     (e\<lparr>manager := snd (getNonce (manager e) a rpc)\<rparr>, Nonce (fst (getNonce (manager e) a rpc)))"
  by (simp add: exec_step_def split_beta)

lemma exec_BeginStep:
  "exec_step sha3 e (BeginStep stx a opts t) =
     (e\<lparr>manager := fst (snd (sendTransaction_begin sha3 (manager e) stx a opts t)),
        in_flight := (fst (sendTransaction_begin sha3 (manager e) stx a opts t), a) # in_flight e\<rparr>,
      Begun (fst (sendTransaction_begin sha3 (manager e) stx a opts t)))"
  by (simp add: exec_step_def split_beta)

lemma exec_SettleStep:
  "exec_step sha3 e (SettleStep r a out) =
     (if (r, a) \<in> set (in_flight e)
      then (e\<lparr>manager := fst (snd (sendTransaction_settle (manager e) r a out)),
              in_flight := removeAll (r, a) (in_flight e)\<rparr>,
            Settled (fst (sendTransaction_settle (manager e) r a out)))
      else (e, NoSuchCall))"
  by (simp add: exec_step_def split_beta)

lemma exec_QueryStep:
  "exec_step sha3 e (QueryStep address limit) =
     (e, Queried (fst (getTransactionHistory (manager e) address limit)))"
  by (simp add: exec_step_def split_beta query_frame)

lemma exec_ReleaseStep:
  "exec_step sha3 e (ReleaseStep n) = (e, Released False)"
  by (simp add: exec_step_def release_called_def number_property_def)

lemmas exec_simps = exec_NonceStep exec_BeginStep exec_SettleStep exec_QueryStep exec_ReleaseStep

subsection \<open>The cached nonce only grows while nothing invalidates it\<close>

lemma begin_cache [simp]:
  "pendingNonces (fst (snd (sendTransaction_begin sha3 s stx a opts t))) = pendingNonces s"
  by (simp add: sendTransaction_begin_def Let_def)

lemma settle_cache:
  "pendingNonces (fst (snd (sendTransaction_settle s r a out))) b =
     (if b = a \<and> (case promise_race out of Inl msg \<Rightarrow> desync_message msg | Inr rcpt \<Rightarrow> False)
      then None else pendingNonces s b)"
  by (auto simp: sendTransaction_settle_def Let_def update_obj_def desync_message_def
           split: sum.splits)

lemma getNonce_cache:
  "pendingNonces (snd (getNonce s a rpc)) b =
     (case rpc of
        Inl err \<Rightarrow> pendingNonces s b
      | Inr onChain \<Rightarrow> if b = a then Some (first_nonce s a onChain + 1) else pendingNonces s b)"
  by (auto simp: getNonce_def resume_first split: sum.splits)

lemma getNonce_result:
  "fst (getNonce s a rpc) = (case rpc of Inl err \<Rightarrow> Inl err | Inr onChain \<Rightarrow> Inr (first_nonce s a onChain))"
  by (auto simp: getNonce_def resume_first split: sum.splits)

lemma first_nonce_cached:
  "pendingNonces s a = Some p \<Longrightarrow> first_nonce s a onChain = max onChain p"
  by (simp add: first_nonce_def)

lemma exec_step_cache:
  assumes st: "exec_step sha3 e st = (e1, res)"
    and ninv: "\<not> invalidates a st"
    and c: "pendingNonces (manager e) a = Some p"
  shows "\<exists>p1. pendingNonces (manager e1) a = Some p1 \<and> p \<le> p1"
    and "\<And>rpc v. st = NonceStep a rpc \<Longrightarrow> res = Nonce (Inr v) \<Longrightarrow> p \<le> v"
    and "(\<forall>rpc. st \<noteq> NonceStep a rpc) \<Longrightarrow> pendingNonces (manager e1) a = Some p"
  using assms
  by (cases st; auto simp: exec_simps settle_cache getNonce_cache getNonce_result first_nonce_cached
        split: sum.splits if_splits)+

lemma run_steps_cache:
  assumes "run_steps sha3 e steps = (e', results)"
    and "\<forall>st \<in> set steps. \<not> invalidates a st"
    and "pendingNonces (manager e) a = Some p"
  shows "(\<exists>p'. pendingNonces (manager e') a = Some p' \<and> p \<le> p')
       \<and> (\<forall>v \<in> set (issued_for a steps results). p \<le> v)
       \<and> ((\<forall>rpc. NonceStep a rpc \<notin> set steps) \<longrightarrow> pendingNonces (manager e') a = Some p)"
  using assms
proof (induction steps arbitrary: e e' results p)
  case Nil
  then show ?case by simp
next
  case (Cons st sts)
  obtain e1 r where x: "exec_step sha3 e st = (e1, r)"
    by (metis prod.collapse)
  obtain e2 rs where y: "run_steps sha3 e1 sts = (e2, rs)"
    by (metis prod.collapse)
  from Cons.prems(1) x y have eq: "e' = e2" "results = r # rs"
    by simp_all
  have ninv: "\<not> invalidates a st" and ninvs: "\<forall>st \<in> set sts. \<not> invalidates a st"
    using Cons.prems(2) by simp_all
  note c = exec_step_cache [OF x ninv Cons.prems(3)]
  from c(1) obtain p1 where p1: "pendingNonces (manager e1) a = Some p1" "p \<le> p1"
    by blast
  note ih = Cons.IH [OF y ninvs p1(1)]
  have grow: "\<exists>p'. pendingNonces (manager e') a = Some p' \<and> p \<le> p'"
    using ih p1(2) eq by auto
  have iss: "\<forall>v \<in> set (issued_for a (st # sts) (r # rs)). p \<le> v"
  proof (cases "\<exists>rpc v. st = NonceStep a rpc \<and> r = Nonce (Inr v)")
    case True
    then obtain rpc v where h: "st = NonceStep a rpc" "r = Nonce (Inr v)"
      by blast
    then have "p \<le> v"
      using c(2) by blast
    then show ?thesis
      using h ih p1(2) by auto
  next
    case False
    then have "issued_for a (st # sts) (r # rs) = issued_for a sts rs"
      by (cases "(a, st # sts, r # rs)" rule: issued_for.cases) auto
    then show ?thesis
      using ih p1(2) by auto
  qed
  have keep: "(\<forall>rpc. NonceStep a rpc \<notin> set (st # sts)) \<longrightarrow> pendingNonces (manager e') a = Some p"
  proof
    assume n: "\<forall>rpc. NonceStep a rpc \<notin> set (st # sts)"
    then have "pendingNonces (manager e1) a = Some p"
      using c(3) by auto
    then have "p1 = p"
      using p1(1) by simp
    then show "pendingNonces (manager e') a = Some p"
      using ih n eq by auto
  qed
  show ?case
    using grow iss keep eq by simp
qed

text \<open>
  Claim C2, as the code has it. Let the cache hold \<open>lastIssued + 1\<close> for address \<open>a\<close>,
  and let any steps of the program follow (calls of \<^verbatim>\<open>getNonce\<close>, beginnings and
  completions of \<^verbatim>\<open>sendTransaction\<close>, history queries, the release guard of
  \<^verbatim>\<open>2ndindex.js\<close>) of which none is a failure of \<^verbatim>\<open>sendTransaction\<close> for \<open>a\<close>
  whose message contains \<^verbatim>\<open>nonce\<close> or \<^verbatim>\<open>underpriced\<close>. Then every nonce that
  \<^verbatim>\<open>getNonce(a)\<close> returns during these steps is greater than \<open>lastIssued\<close>, the cache
  still holds a value greater than \<open>lastIssued\<close> afterwards, and the next call of
  \<^verbatim>\<open>getNonce(a)\<close>, at once or after steps without such a call, returns the maximum of
  the on-chain count and \<open>lastIssued + 1\<close>.
\<close>

theorem cached_nonce_not_reissued_unless_invalidated:
  assumes run: "run_steps sha3 e steps = (e', results)"
    and ninv: "\<forall>st \<in> set steps. \<not> invalidates a st"
    and last: "pendingNonces (manager e) a = Some (lastIssued + 1)"
  shows "(\<forall>v \<in> set (issued_for a steps results). lastIssued < v)
       \<and> (\<exists>p'. pendingNonces (manager e') a = Some p' \<and> lastIssued < p')
       \<and> (\<forall>onChain. fst (getNonce (manager e) a (Inr onChain)) = Inr (max onChain (lastIssued + 1)))
       \<and> ((\<forall>rpc. NonceStep a rpc \<notin> set steps) \<longrightarrow>
            (\<forall>onChain. fst (getNonce (manager e') a (Inr onChain)) = Inr (max onChain (lastIssued + 1))))"
proof -
  note c = run_steps_cache [OF run ninv last]
  have a: "\<forall>v \<in> set (issued_for a steps results). lastIssued < v"
    using c by auto
  have b: "\<exists>p'. pendingNonces (manager e') a = Some p' \<and> lastIssued < p'"
    using c by auto
  have n: "fst (getNonce s a (Inr onChain)) = Inr (max onChain (lastIssued + 1))"
    if "pendingNonces s a = Some (lastIssued + 1)" for s onChain
    using that by (simp add: getNonce_result first_nonce_cached)
  show ?thesis
    using a b n [OF last] n c by blast
qed

lemmas step_defs = exec_step_def getNonce_def getNonce_resume_def getTransactionHistory_def
  release_called_def number_property_def

theorem cached_nonce_not_reissued_unless_invalidated_witness:
  "pendingNonces (manager ex_engine) ''0xAbC'' = Some (7 + 1)
   \<and> snd (run_steps ex_sha3 ex_engine ex_steps_timeout) =
       [Nonce (Inr 8), Begun 0, Settled (Inl ''Transaction timeout''), Released False, Nonce (Inr 9)]
   \<and> issued_for ''0xAbC'' ex_steps_timeout (snd (run_steps ex_sha3 ex_engine ex_steps_timeout)) = [8, 9]"
proof -
  have run: "run_steps ex_sha3 ex_engine ex_steps_timeout =
               (fst (run_steps ex_sha3 ex_engine ex_steps_timeout),
                snd (run_steps ex_sha3 ex_engine ex_steps_timeout))"
    by simp
  have ninv: "\<forall>st \<in> set ex_steps_timeout. \<not> invalidates ''0xAbC'' st"
    by (simp add: ex_steps_timeout_def promise_race_def desync_message_def)
  have last: "pendingNonces (manager ex_engine) ''0xAbC'' = Some (7 + 1)"
    by (simp add: ex_engine_def ex_manager_def)
  have res: "snd (run_steps ex_sha3 ex_engine ex_steps_timeout) =
       [Nonce (Inr 8), Begun 0, Settled (Inl ''Transaction timeout''), Released False, Nonce (Inr 9)]"
    by (simp add: ex_steps_timeout_def ex_engine_def ex_defs send_defs step_defs)
  show ?thesis
    using cached_nonce_not_reissued_unless_invalidated [OF run ninv last] last res
    by (simp add: ex_steps_timeout_def)
qed

text \<open>
  The claim as stated includes the invalidation path, and there it fails: after a
  broadcast that was rejected as underpriced, the cache entry is gone and the next
  \<^verbatim>\<open>getNonce\<close> returns the on-chain count 5, although nonce 7 had been issued.
\<close>

theorem invalidation_reissues_nonce_counterexample:
  "pendingNonces (manager ex_engine) ''0xAbC'' = Some (7 + 1)
   \<and> snd (run_steps ex_sha3 ex_engine ex_steps_underpriced) =
       [Begun 0, Settled (Inl ''replacement transaction underpriced''), Nonce (Inr 5)]
   \<and> issued_for ''0xAbC'' ex_steps_underpriced (snd (run_steps ex_sha3 ex_engine ex_steps_underpriced)) = [5]
   \<and> \<not> (7 < (5::nat)) \<and> (5::nat) \<noteq> max 5 (7 + 1)"
  by (simp add: ex_steps_underpriced_def ex_engine_def ex_defs send_defs step_defs)

section \<open>The life of a record\<close>

lemma suspended_step:
  assumes st: "exec_step sha3 e st = (e1, res)"
    and own: "call_suspended r a e"
    and ns: "\<not> settles r st"
  shows "call_suspended r a e1" and "objs (manager e1) r = objs (manager e) r"
proof -
  have lt: "r < next_obj (manager e)" and mem: "(r, a) \<in> set (in_flight e)"
    using own by (simp_all add: call_suspended_def)
  have uniq: "b = a" if "(r, b) \<in> set (in_flight e)" for b
    using own that unfolding call_suspended_def by blast
  have keep: "call_suspended r a (e\<lparr>manager := m, in_flight := fl\<rparr>)"
    if "r < next_obj m" and "(r, a) \<in> set fl"
      and "\<And>b. (r, b) \<in> set fl \<Longrightarrow> (r, b) \<in> set (in_flight e)" for m fl
    unfolding call_suspended_def using that uniq by auto
  have "call_suspended r a e1 \<and> objs (manager e1) r = objs (manager e) r"
  proof (cases st)
    case (NonceStep b rpc)
    then have e1: "e1 = e\<lparr>manager := snd (getNonce (manager e) b rpc), in_flight := in_flight e\<rparr>"
      using st by (auto simp: exec_simps)
    have "call_suspended r a e1"
      unfolding e1 using lt mem by (intro keep) simp_all
    then show ?thesis
      using e1 by simp
  next
    case (BeginStep stx b opts t)
    then have e1: "e1 = e\<lparr>manager := fst (snd (sendTransaction_begin sha3 (manager e) stx b opts t)),
                       in_flight := (next_obj (manager e), b) # in_flight e\<rparr>"
      using st by (simp add: exec_simps)
    have "call_suspended r a e1"
      unfolding e1 using lt mem by (intro keep) auto
    then show ?thesis
      using e1 lt by simp
  next
    case (SettleStep r' b out)
    then have ne: "r' \<noteq> r"
      using ns by simp
    show ?thesis
    proof (cases "(r', b) \<in> set (in_flight e)")
      case True
      then have e1: "e1 = e\<lparr>manager := fst (snd (sendTransaction_settle (manager e) r' b out)),
                         in_flight := removeAll (r', b) (in_flight e)\<rparr>"
        using st SettleStep by (simp add: exec_simps)
      have "call_suspended r a e1"
        unfolding e1 using lt mem ne by (intro keep) auto
      then show ?thesis
        using e1 ne by simp
    next
      case False
      then have "e1 = e"
        using st SettleStep by (simp add: exec_simps)
      then show ?thesis
        using own by simp
    qed
  next
    case (QueryStep address limit)
    then have "e1 = e"
      using st by (simp add: exec_simps)
    then show ?thesis
      using own by simp
  next
    case (ReleaseStep n)
    then have "e1 = e"
      using st by (simp add: exec_simps)
    then show ?thesis
      using own by simp
  qed
  then show "call_suspended r a e1" and "objs (manager e1) r = objs (manager e) r"
    by simp_all
qed

lemma settle_hash:
  "map_option tx_hash (objs (fst (snd (sendTransaction_settle s r a out))) r) =
     map_option tx_hash (objs s r)"
  by (cases "promise_race out"; cases "objs s r";
      simp add: sendTransaction_settle_def Let_def update_obj_def)

lemma finished_step:
  assumes st: "exec_step sha3 e st = (e1, res)"
    and gone: "call_finished r e"
  shows "call_finished r e1" and "objs (manager e1) r = objs (manager e) r"
proof -
  have lt: "r < next_obj (manager e)" and nf: "r \<notin> fst ` set (in_flight e)"
    using gone by (simp_all add: call_finished_def)
  have "call_finished r e1 \<and> objs (manager e1) r = objs (manager e) r"
  proof (cases st)
    case (NonceStep b rpc)
    then have "e1 = e\<lparr>manager := snd (getNonce (manager e) b rpc)\<rparr>"
      using st by (simp add: exec_simps)
    then show ?thesis
      using lt nf by (simp add: call_finished_def)
  next
    case (BeginStep stx b opts t)
    then have "e1 = e\<lparr>manager := fst (snd (sendTransaction_begin sha3 (manager e) stx b opts t)),
                       in_flight := (next_obj (manager e), b) # in_flight e\<rparr>"
      using st by (simp add: exec_simps)
    then show ?thesis
      using lt nf by (simp add: call_finished_def)
  next
    case (SettleStep r' b out)
    show ?thesis
    proof (cases "(r', b) \<in> set (in_flight e)")
      case True
      then have ne: "r \<noteq> r'"
        using nf by force
      have e1: "e1 = e\<lparr>manager := fst (snd (sendTransaction_settle (manager e) r' b out)),
                         in_flight := removeAll (r', b) (in_flight e)\<rparr>"
        using st SettleStep True by (simp add: exec_simps)
      have "fst ` set (removeAll (r', b) (in_flight e)) \<subseteq> fst ` set (in_flight e)"
        by auto
      then have "r \<notin> fst ` set (in_flight e1)"
        using nf e1 by auto
      then show ?thesis
        using lt ne e1 by (simp add: call_finished_def)
    next
      case False
      then have "e1 = e"
        using st SettleStep by (simp add: exec_simps)
      then show ?thesis
        using gone by simp
    qed
  next
    case (QueryStep address limit)
    then have "e1 = e"
      using st by (simp add: exec_simps)
    then show ?thesis
      using gone by simp
  next
    case (ReleaseStep n)
    then have "e1 = e"
      using st by (simp add: exec_simps)
    then show ?thesis
      using gone by simp
  qed
  then show "call_finished r e1" and "objs (manager e1) r = objs (manager e) r"
    by simp_all
qed

lemma suspended_run:
  assumes "run_steps sha3 e steps = (e', rs)"
    and "call_suspended r a e"
    and "\<forall>st \<in> set steps. \<not> settles r st"
  shows "call_suspended r a e' \<and> objs (manager e') r = objs (manager e) r"
  using assms
proof (induction steps arbitrary: e e' rs)
  case Nil
  then show ?case by simp
next
  case (Cons st sts)
  obtain e1 x where x: "exec_step sha3 e st = (e1, x)"
    by (metis prod.collapse)
  obtain rs1 where y: "run_steps sha3 e1 sts = (e', rs1)"
    using Cons.prems(1) x by (auto split: prod.splits)
  have ns: "\<not> settles r st" and nss: "\<forall>st \<in> set sts. \<not> settles r st"
    using Cons.prems(3) by simp_all
  note s1 = suspended_step [OF x Cons.prems(2) ns]
  from Cons.IH [OF y s1(1) nss] s1(2)
  show ?case by simp
qed

lemma finished_run:
  assumes "run_steps sha3 e steps = (e', rs)"
    and "call_finished r e"
  shows "call_finished r e' \<and> objs (manager e') r = objs (manager e) r"
  using assms
proof (induction steps arbitrary: e e' rs)
  case Nil
  then show ?case by simp
next
  case (Cons st sts)
  obtain e1 x where x: "exec_step sha3 e st = (e1, x)"
    by (metis prod.collapse)
  obtain rs1 where y: "run_steps sha3 e1 sts = (e', rs1)"
    using Cons.prems(1) x by (auto split: prod.splits)
  note s1 = finished_step [OF x Cons.prems(2)]
  from Cons.IH [OF y s1(1)] s1(2)
  show ?case by simp
qed

lemma begin_suspends:
  assumes ok: "engine_ok e"
    and b: "exec_step sha3 e (BeginStep stx a opts t) = (e1, Begun r)"
  shows "call_suspended r a e1"
    and "objs (manager e1) r = Some (txRecord (sha3 (rawTransaction stx)) a opts t)"
    and "r = next_obj (manager e)"
    and "txHistory (manager e1) ! 0 = r" and "0 < length (txHistory (manager e1))"
proof -
  have r: "r = next_obj (manager e)"
    using b by (simp add: exec_simps)
  show "r = next_obj (manager e)" by (rule r)
  have "\<And>b. (r, b) \<notin> set (in_flight e)"
    using ok r by (force simp: engine_ok_def)
  then show "call_suspended r a e1"
    using b by (auto simp: exec_simps call_suspended_def)
  show "objs (manager e1) r = Some (txRecord (sha3 (rawTransaction stx)) a opts t)"
    using b by (auto simp: exec_simps)
  have h: "txHistory (manager e1) = (if length (txHistory (manager e)) < maxHistoryItems
             then r # txHistory (manager e) else butlast (r # txHistory (manager e)))"
    using b by (auto simp: exec_simps begin_txHistory)
  show "txHistory (manager e1) ! 0 = r" "0 < length (txHistory (manager e1))"
    using h by (cases "txHistory (manager e)"; simp add: maxHistoryItems_def)+
qed

lemma settle_finishes:
  assumes own: "call_suspended r a e2"
    and fin: "exec_step sha3 e2 (SettleStep r a out) = (e3, res)"
  shows "call_finished r e3" and "res = Settled (promise_race out)"
    and "txHistory (manager e3) = txHistory (manager e2)"
    and "map_option tx_status (objs (manager e3) r) =
           map_option (\<lambda>st. if is_Inr (promise_race out) then Confirmed else Failed)
             (map_option tx_status (objs (manager e2) r))"
    and "map_option tx_hash (objs (manager e3) r) = map_option tx_hash (objs (manager e2) r)"
proof -
  have lt: "r < next_obj (manager e2)" and mem: "(r, a) \<in> set (in_flight e2)"
    using own by (simp_all add: call_suspended_def)
  have uniq: "b = a" if "(r, b) \<in> set (in_flight e2)" for b
    using own that unfolding call_suspended_def by blast
  have e3: "e3 = e2\<lparr>manager := fst (snd (sendTransaction_settle (manager e2) r a out)),
                     in_flight := removeAll (r, a) (in_flight e2)\<rparr>"
    and res: "res = Settled (promise_race out)"
    using fin mem by (auto simp: exec_simps)
  have "r \<notin> fst ` set (removeAll (r, a) (in_flight e2))"
    using uniq by auto
  then show "call_finished r e3"
    using lt e3 by (simp add: call_finished_def)
  show "res = Settled (promise_race out)"
    by (rule res)
  show "txHistory (manager e3) = txHistory (manager e2)"
    using e3 by simp
  show "map_option tx_status (objs (manager e3) r) =
           map_option (\<lambda>st. if is_Inr (promise_race out) then Confirmed else Failed)
             (map_option tx_status (objs (manager e2) r))"
    using e3 by (simp add: settle_status)
  show "map_option tx_hash (objs (manager e3) r) = map_option tx_hash (objs (manager e2) r)"
    using e3 by (simp add: settle_hash)
qed

subsection \<open>Where a record stands in the history\<close>

lemma begin_position:
  assumes k: "k < length (txHistory s)" and r: "txHistory s ! k = r" and small: "Suc k < maxHistoryItems"
  shows "Suc k < length (txHistory (fst (snd (sendTransaction_begin sha3 s stx a opts t))))"
    and "txHistory (fst (snd (sendTransaction_begin sha3 s stx a opts t))) ! Suc k = r"
proof -
  let ?h = "txHistory (fst (snd (sendTransaction_begin sha3 s stx a opts t)))"
  show len: "Suc k < length ?h"
    using k small by (simp add: begin_txHistory)
  show "?h ! Suc k = r"
  proof (cases "length (txHistory s) < maxHistoryItems")
    case True
    then show ?thesis using r by (simp add: begin_txHistory)
  next
    case False
    then have "?h = butlast (next_obj s # txHistory s)"
      by (simp add: begin_txHistory)
    then have "?h ! Suc k = (next_obj s # txHistory s) ! Suc k"
      using len by (metis nth_butlast)
    then show ?thesis using r by simp
  qed
qed

lemma exec_step_position:
  assumes st: "exec_step sha3 e st = (e1, res)"
    and k: "k < length (txHistory (manager e))" and r: "txHistory (manager e) ! k = r"
    and small: "k + length (filter is_begin [st]) < maxHistoryItems"
  shows "k + length (filter is_begin [st]) < length (txHistory (manager e1))
       \<and> txHistory (manager e1) ! (k + length (filter is_begin [st])) = r"
proof (cases st)
  case (BeginStep stx b opts t)
  then have e1: "manager e1 = fst (snd (sendTransaction_begin sha3 (manager e) stx b opts t))"
    using st by (auto simp: exec_simps)
  show ?thesis
    using begin_position [OF k r, of sha3 stx b opts t] small BeginStep e1 by simp
next
  case (SettleStep r' b out)
  then show ?thesis
    using st k r by (auto simp: exec_simps split: if_splits)
qed (use st k r in \<open>auto simp: exec_simps\<close>)

lemma run_steps_position:
  assumes "run_steps sha3 e steps = (e', rs)"
    and "k < length (txHistory (manager e))" and "txHistory (manager e) ! k = r"
    and "k + length (filter is_begin steps) < maxHistoryItems"
  shows "k + length (filter is_begin steps) < length (txHistory (manager e'))
       \<and> txHistory (manager e') ! (k + length (filter is_begin steps)) = r"
  using assms
proof (induction steps arbitrary: e e' rs k)
  case Nil
  then show ?case by simp
next
  case (Cons st sts)
  obtain e1 x where x: "exec_step sha3 e st = (e1, x)"
    by (metis prod.collapse)
  obtain rs1 where y: "run_steps sha3 e1 sts = (e', rs1)"
    using Cons.prems(1) x by (auto split: prod.splits)
  let ?k1 = "k + length (filter is_begin [st])"
  have small1: "?k1 < maxHistoryItems"
    using Cons.prems(4) by (cases "is_begin st") simp_all
  note p = exec_step_position [OF x Cons.prems(2,3) small1]
  have small2: "?k1 + length (filter is_begin sts) < maxHistoryItems"
    using Cons.prems(4) by (cases "is_begin st") simp_all
  from Cons.IH [OF y p [THEN conjunct1] p [THEN conjunct2] small2]
  show ?case by (cases "is_begin st") simp_all
qed

lemma in_snapshot: "r \<in> set (txHistory s) \<Longrightarrow> objs s r = Some x \<Longrightarrow> x \<in> set (snapshot s)"
  by (force simp: snapshot_def map_filter_def)

text \<open>
  Claim C4, as the code has it. Take a call of \<^verbatim>\<open>sendTransaction\<close> that begins in
  an engine whose suspended calls all hold references handed out earlier, let any steps
  of other calls run while it waits, let it complete, and let any steps follow. The
  record object it created is Pending from its creation until the call completes; the
  completion writes its status once, to Confirmed when the race gave a receipt and to
  Failed otherwise; no later step changes it. The record is still in the history, with
  that status under its hash, when fewer than 100 other calls began while this one was
  waiting; when none did, it is the first record of the history.
\<close>

theorem record_settles_exactly_once:
  assumes ok: "engine_ok e"
    and beg: "exec_step sha3 e (BeginStep stx a opts t) = (e1, Begun r)"
    and mid: "run_steps sha3 e1 between = (e2, rs2)"
    and nos: "\<forall>st \<in> set between. \<not> settles r st"
    and fin: "exec_step sha3 e2 (SettleStep r a out) = (e3, res)"
    and aft: "run_steps sha3 e3 later = (e4, rs4)"
  shows "status_of e1 r = Some Pending \<and> status_of e2 r = Some Pending
       \<and> res = Settled (promise_race out)
       \<and> status_of e3 r = Some (terminal out) \<and> terminal out \<noteq> Pending
       \<and> (terminal out = Confirmed) = is_Inr (promise_race out)
       \<and> status_of e4 r = Some (terminal out)
       \<and> (length (filter is_begin between) < 100 \<longrightarrow>
             r \<in> set (txHistory (manager e3))
             \<and> (\<exists>x \<in> set (snapshot (manager e3)).
                   tx_hash x = sha3 (rawTransaction stx) \<and> tx_status x = terminal out))
       \<and> (between = [] \<longrightarrow> hd (txHistory (manager e3)) = r)"
proof -
  note b = begin_suspends [OF ok beg]
  have s1: "status_of e1 r = Some Pending"
    using b(2) by (simp add: status_of_def txRecord_def)
  note m = suspended_run [OF mid b(1) nos]
  have o2: "objs (manager e2) r = Some (txRecord (sha3 (rawTransaction stx)) a opts t)"
    using m b(2) by simp
  then have s2: "status_of e2 r = Some Pending"
    by (simp add: status_of_def txRecord_def)
  note f = settle_finishes [OF m [THEN conjunct1] fin]
  have s3: "status_of e3 r = Some (terminal out)"
    using f(4) o2 by (simp add: status_of_def terminal_def txRecord_def)
  have h3: "map_option tx_hash (objs (manager e3) r) = Some (sha3 (rawTransaction stx))"
    using f(5) o2 by (simp add: txRecord_def)
  note l = finished_run [OF aft f(1)]
  have s4: "status_of e4 r = Some (terminal out)"
    using l s3 by (simp add: status_of_def)
  have kept: "r \<in> set (txHistory (manager e3))
             \<and> (\<exists>x \<in> set (snapshot (manager e3)).
                   tx_hash x = sha3 (rawTransaction stx) \<and> tx_status x = terminal out)"
    if few: "length (filter is_begin between) < 100"
  proof -
    have "0 + length (filter is_begin between) < maxHistoryItems"
      using few by (simp add: maxHistoryItems_def)
    from run_steps_position [OF mid b(5) b(4) this]
    have "r \<in> set (txHistory (manager e2))"
      by (metis nth_mem)
    then have mem: "r \<in> set (txHistory (manager e3))"
      using f(3) by simp
    obtain x where x: "objs (manager e3) r = Some x"
      using s3 by (auto simp: status_of_def)
    then have "x \<in> set (snapshot (manager e3))"
      using mem by (simp add: in_snapshot)
    moreover have "tx_hash x = sha3 (rawTransaction stx)" "tx_status x = terminal out"
      using x h3 s3 by (simp_all add: status_of_def)
    ultimately show ?thesis
      using mem by blast
  qed
  have first: "hd (txHistory (manager e3)) = r" if "between = []"
  proof -
    have "e2 = e1"
      using mid that by simp
    then show ?thesis
      using b(4,5) f(3) by (cases "txHistory (manager e1)") simp_all
  qed
  have t: "terminal out \<noteq> Pending" "(terminal out = Confirmed) = is_Inr (promise_race out)"
    by (simp_all add: terminal_def)
  show ?thesis
    using s1 s2 f(2) s3 t s4 kept first by blast
qed

subsection \<open>A batch larger than the history\<close>

lemma run_steps_append:
  "fst (run_steps sha3 e (xs @ ys)) = fst (run_steps sha3 (fst (run_steps sha3 e xs)) ys)"
  "snd (run_steps sha3 e (xs @ ys)) =
     snd (run_steps sha3 e xs) @ snd (run_steps sha3 (fst (run_steps sha3 e xs)) ys)"
  by (induction xs arbitrary: e) (simp_all add: split_beta)

lemma take_append_take: "take n (xs @ take n ys) = take n (xs @ ys)"
  by (simp add: min_def)

lemma begin_txHistory_capped:
  assumes "length (txHistory s) \<le> 100"
  shows "txHistory (fst (snd (sendTransaction_begin sha3 s stx a opts t))) =
           take 100 (next_obj s # txHistory s)"
  using assms
  by (cases "length (txHistory s) < 100") (simp_all add: begin_txHistory maxHistoryItems_def butlast_conv_take)

lemma run_begins:
  assumes "length (txHistory (manager e)) \<le> 100"
  shows "txHistory (manager (fst (run_steps sha3 e (replicate n (BeginStep stx a opts t))))) =
           take 100 (rev [next_obj (manager e) ..< next_obj (manager e) + n] @ txHistory (manager e))
       \<and> next_obj (manager (fst (run_steps sha3 e (replicate n (BeginStep stx a opts t))))) =
           next_obj (manager e) + n
       \<and> (\<forall>x. objs (manager (fst (run_steps sha3 e (replicate n (BeginStep stx a opts t))))) x =
             (if next_obj (manager e) \<le> x \<and> x < next_obj (manager e) + n
              then Some (txRecord (sha3 (rawTransaction stx)) a opts t) else objs (manager e) x))
       \<and> set (in_flight e) \<subseteq> set (in_flight (fst (run_steps sha3 e (replicate n (BeginStep stx a opts t)))))"
  using assms
proof (induction n arbitrary: e)
  case 0
  then show ?case by auto
next
  case (Suc n)
  let ?b = "next_obj (manager e)"
  let ?e1 = "fst (exec_step sha3 e (BeginStep stx a opts t))"
  have h1: "txHistory (manager ?e1) = take 100 (?b # txHistory (manager e))"
    using Suc.prems by (simp add: exec_simps begin_txHistory_capped)
  have n1: "next_obj (manager ?e1) = Suc ?b"
    by (simp add: exec_simps)
  have o1: "objs (manager ?e1) x = (if x = ?b then Some (txRecord (sha3 (rawTransaction stx)) a opts t)
                                    else objs (manager e) x)" for x
    by (simp add: exec_simps)
  have f1: "set (in_flight e) \<subseteq> set (in_flight ?e1)"
    by (auto simp: exec_simps)
  have l1: "length (txHistory (manager ?e1)) \<le> 100"
    using h1 by simp
  note ih = Suc.IH [OF l1]
  have run: "fst (run_steps sha3 e (replicate (Suc n) (BeginStep stx a opts t))) =
               fst (run_steps sha3 ?e1 (replicate n (BeginStep stx a opts t)))"
    by (simp add: split_beta)
  have upt: "rev [?b ..< ?b + Suc n] = rev [Suc ?b ..< Suc ?b + n] @ [?b]"
    by (simp add: upt_conv_Cons del: upt_Suc)
  have hist: "take 100 (rev [Suc ?b ..< Suc ?b + n] @ take 100 (?b # txHistory (manager e))) =
              take 100 (rev [?b ..< ?b + Suc n] @ txHistory (manager e))"
    unfolding upt take_append_take by simp
  show ?case
    unfolding run using ih f1 hist by (auto simp: h1 n1 o1)
qed

lemma map_filter_const:
  "\<forall>x \<in> set xs. f x = Some c \<Longrightarrow> List.map_filter f xs = replicate (length xs) c"
  by (induction xs) simp_all

text \<open>
  The claim as stated places the transition in the history store for every completed
  call, and there it fails: in a batch of 101 wallets the record of the first call has
  been evicted by the time its broadcast resolves. The call returns the receipt and
  the record object becomes Confirmed, but the history holds only the 100 Pending
  records of the other calls.
\<close>

theorem evicted_record_settles_outside_store_counterexample:
  "last (snd (run_steps ex_sha3 ex_engine ex_steps_evicted)) = Settled (Inr ex_receipt)
   \<and> status_of (fst (run_steps ex_sha3 ex_engine ex_steps_evicted)) 0 = Some Confirmed
   \<and> 0 \<notin> set (txHistory (manager (fst (run_steps ex_sha3 ex_engine ex_steps_evicted))))
   \<and> snapshot (manager (fst (run_steps ex_sha3 ex_engine ex_steps_evicted))) =
        replicate 100 (txRecord ''h:f86c'' ''0xD1'' ex_opts 2000)
   \<and> tx_status (txRecord ''h:f86c'' ''0xD1'' ex_opts 2000) = Pending"
proof -
  let ?b1 = "BeginStep ex_stx ''0xAbC'' ex_opts 1000"
  let ?b2 = "BeginStep ex_stx2 ''0xD1'' ex_opts 2000"
  let ?st = "SettleStep 0 ''0xAbC'' (BroadcastFirst (Resolved ex_receipt))"
  define e1 where "e1 = fst (exec_step ex_sha3 ex_engine ?b1)"
  define e2 where "e2 = fst (run_steps ex_sha3 e1 (replicate 100 ?b2))"
  define e3 where "e3 = fst (exec_step ex_sha3 e2 ?st)"
  have h1: "txHistory (manager e1) = [0]" and n1: "next_obj (manager e1) = 1"
    and f1: "in_flight e1 = [(0, ''0xAbC'')]"
    by (simp_all add: e1_def exec_simps begin_txHistory ex_engine_def ex_manager_def
          new_TransactionManager_def maxHistoryItems_def)
  have o1: "map_option tx_status (objs (manager e1) 0) = Some Pending"
    by (simp add: e1_def exec_simps ex_engine_def ex_manager_def new_TransactionManager_def
          sendTransaction_begin_def txRecord_def Let_def)
  have l1: "length (txHistory (manager e1)) \<le> 100"
    using h1 by simp
  note m = run_begins [OF l1, of ex_sha3 100 ex_stx2 "''0xD1''" ex_opts 2000, folded e2_def]
  have h2: "txHistory (manager e2) = rev [1 ..< 101]"
    using m h1 n1 by simp
  have o2: "objs (manager e2) x = Some (txRecord ''h:f86c'' ''0xD1'' ex_opts 2000)"
    if "x \<in> set (rev [1 ..< 101])" for x
    using m n1 that by (simp add: ex_sha3_def ex_stx2_def)
  have o20: "map_option tx_status (objs (manager e2) 0) = Some Pending"
    using m n1 o1 by simp
  have f2: "(0, ''0xAbC'') \<in> set (in_flight e2)"
    using m f1 by auto
  have res: "snd (exec_step ex_sha3 e2 ?st) = Settled (Inr ex_receipt)"
    using f2 by (simp add: exec_simps promise_race_def)
  have h3: "txHistory (manager e3) = rev [1 ..< 101]"
    using f2 h2 by (simp add: e3_def exec_simps)
  have o3: "objs (manager e3) x = Some (txRecord ''h:f86c'' ''0xD1'' ex_opts 2000)"
    if "x \<in> set (rev [1 ..< 101])" for x
  proof -
    have "x \<noteq> 0" using that by auto
    then show ?thesis
      using f2 o2 [OF that] by (simp add: e3_def exec_simps)
  qed
  have s3: "status_of e3 0 = Some Confirmed"
    using f2 o20 by (auto simp: e3_def exec_simps status_of_def settle_status promise_race_def)
  have snap: "snapshot (manager e3) = replicate 100 (txRecord ''h:f86c'' ''0xD1'' ex_opts 2000)"
    unfolding snapshot_def h3
    using map_filter_const [of "rev [1 ..< 101]" "objs (manager e3)"] o3 by simp
  have run: "fst (run_steps ex_sha3 ex_engine ex_steps_evicted) = e3"
    by (simp add: ex_steps_evicted_def run_steps_append split_beta e1_def e2_def e3_def)
  have out: "last (snd (run_steps ex_sha3 ex_engine ex_steps_evicted)) = Settled (Inr ex_receipt)"
    using res by (simp add: ex_steps_evicted_def run_steps_append split_beta e1_def e2_def)
  show ?thesis
    using run out s3 h3 snap by (simp add: txRecord_def)
qed

theorem record_settles_exactly_once_witness:
  "engine_ok ex_engine
   \<and> status_of ex_e1 0 = Some Pending \<and> status_of ex_e2 0 = Some Pending
   \<and> status_of ex_e3 0 = Some Failed \<and> status_of ex_e4 0 = Some Failed
   \<and> 0 \<in> set (txHistory (manager ex_e3))"
proof -
  have ok: "engine_ok ex_engine"
    by (simp add: engine_ok_def ex_engine_def)
  have beg: "exec_step ex_sha3 ex_engine (BeginStep ex_stx ''0xAbC'' ex_opts 1000) = (ex_e1, Begun 0)"
    by (simp add: ex_e1_def exec_simps ex_engine_def ex_manager_def new_TransactionManager_def)
  have mid: "run_steps ex_sha3 ex_e1 ex_between = (ex_e2, snd (run_steps ex_sha3 ex_e1 ex_between))"
    by (simp add: ex_e2_def)
  have nos: "\<forall>st \<in> set ex_between. \<not> settles 0 st"
    by (simp add: ex_between_def)
  have fin: "exec_step ex_sha3 ex_e2 (SettleStep 0 ''0xAbC'' (TimerFirst None)) =
               (ex_e3, snd (exec_step ex_sha3 ex_e2 (SettleStep 0 ''0xAbC'' (TimerFirst None))))"
    by (simp add: ex_e3_def)
  have aft: "run_steps ex_sha3 ex_e3 ex_later = (ex_e4, snd (run_steps ex_sha3 ex_e3 ex_later))"
    by (simp add: ex_e4_def)
  have few: "length (filter is_begin ex_between) < 100"
    by (simp add: ex_between_def)
  show ?thesis
    using record_settles_exactly_once [OF ok beg mid nos fin aft] ok few
    by (simp add: terminal_def promise_race_def)
qed

section \<open>The effects of a call among other calls\<close>

lemma settle_record_obj:
  "objs s r = Some x \<Longrightarrow>
     objs (fst (snd (sendTransaction_settle s r a out))) r = Some (settled_record x out)"
  by (cases "promise_race out")
     (simp_all add: sendTransaction_settle_def Let_def update_obj_def settled_record_def)

lemma settle_ordered_effects:
  "filter ordered_effect (snd (snd (sendTransaction_settle s r a out))) =
     [SetStatus r (terminal out),
      SaveHistory (snapshot (fst (snd (sendTransaction_settle s r a out))))]"
  by (cases "promise_race out")
     (simp_all add: sendTransaction_settle_def Let_def update_obj_def terminal_def snapshot_def)

lemma settle_record:
  assumes fin: "sendTransaction_settle s r a out = (res, s3, ev2)" and x: "objs s r = Some x"
  shows "objs s3 r = Some (settled_record x out)"
    and "filter ordered_effect ev2 = [SetStatus r (terminal out), SaveHistory (snapshot s3)]"
    and "res = promise_race out"
    and "txHistory s3 = txHistory s"
proof -
  have p: "res = fst (sendTransaction_settle s r a out)"
    "s3 = fst (snd (sendTransaction_settle s r a out))"
    "ev2 = snd (snd (sendTransaction_settle s r a out))"
    unfolding fin by simp_all
  show "objs s3 r = Some (settled_record x out)"
    unfolding p by (rule settle_record_obj [OF x])
  show "filter ordered_effect ev2 = [SetStatus r (terminal out), SaveHistory (snapshot s3)]"
    unfolding p by (rule settle_ordered_effects)
  show "res = promise_race out"
    unfolding p by simp
  show "txHistory s3 = txHistory s"
    unfolding p by simp
qed

lemma settle_ignores_loser:
  "sendTransaction_settle s r a (TimerFirst late) = sendTransaction_settle s r a (TimerFirst None)"
  by (simp add: sendTransaction_settle_def promise_race_def)

text \<open>
  Claim C3, as the code has it. Take any call of \<^verbatim>\<open>sendTransaction\<close>, with any
  steps of other calls running while it awaits the race. Its effects come in this
  order, each once: the hash of the raw signed transaction; the write of the history
  file, whose first record is the new Pending record under that hash; the race of the
  broadcast against the timer of \<^verbatim>\<open>options.timeout || 120000\<close>; the write of the
  terminal status; the write of the history file as the manager holds it at that
  moment. A receipt that wins the race makes the record object Confirmed with its
  block number and gas used and is returned; a rejection or the timer makes it Failed
  with the error text, and that error is the result. When the timer wins, what the
  abandoned broadcast does later changes nothing. The file written last holds the
  record in its terminal state when fewer than 100 other calls began during the race;
  when no step ran in between, the record is the first of the file and the call is
  the function \<open>sendTransaction\<close>.
\<close>

theorem sendTransaction_effects_among_calls:
  assumes ok: "engine_ok e"
    and beg: "exec_step sha3 e (BeginStep stx a opts t) = (e1, Begun r)"
    and ev1: "ev1 = snd (snd (sendTransaction_begin sha3 (manager e) stx a opts t))"
    and mid: "run_steps sha3 e1 between = (e2, rs)"
    and nos: "\<forall>st \<in> set between. \<not> settles r st"
    and fin: "sendTransaction_settle (manager e2) r a out = (res, s3, ev2)"
  shows "filter ordered_effect (ev1 @ ev2) =
           [Sha3 (rawTransaction stx), SaveHistory (snapshot (manager e1)),
            Race (rawTransaction stx) (js_or (opt_timeout opts) (JNum 120000)),
            SetStatus r (terminal out), SaveHistory (snapshot s3)]
       \<and> snapshot (manager e1) \<noteq> []
       \<and> hd (snapshot (manager e1)) = txRecord (sha3 (rawTransaction stx)) a opts t
       \<and> tx_status (txRecord (sha3 (rawTransaction stx)) a opts t) = Pending
       \<and> tx_hash (txRecord (sha3 (rawTransaction stx)) a opts t) = sha3 (rawTransaction stx)
       \<and> exec_step sha3 e2 (SettleStep r a out) =
            (e2\<lparr>manager := s3, in_flight := removeAll (r, a) (in_flight e2)\<rparr>, Settled res)
       \<and> objs s3 r = Some (settled_record (txRecord (sha3 (rawTransaction stx)) a opts t) out)
       \<and> (case out of
             BroadcastFirst (Resolved rcpt) \<Rightarrow>
               res = Inr rcpt \<and> terminal out = Confirmed
               \<and> settled_record (txRecord (sha3 (rawTransaction stx)) a opts t) out =
                   (txRecord (sha3 (rawTransaction stx)) a opts t)
                     \<lparr>tx_status := Confirmed, tx_blockNumber := Some (blockNumber rcpt),
                      tx_gasUsed := Some (gasUsed rcpt)\<rparr>
           | BroadcastFirst (Rejected msg) \<Rightarrow>
               res = Inl msg \<and> terminal out = Failed
               \<and> settled_record (txRecord (sha3 (rawTransaction stx)) a opts t) out =
                   (txRecord (sha3 (rawTransaction stx)) a opts t)
                     \<lparr>tx_status := Failed, tx_error := Some msg\<rparr>
           | TimerFirst late \<Rightarrow>
               res = Inl ''Transaction timeout'' \<and> terminal out = Failed
               \<and> settled_record (txRecord (sha3 (rawTransaction stx)) a opts t) out =
                   (txRecord (sha3 (rawTransaction stx)) a opts t)
                     \<lparr>tx_status := Failed, tx_error := Some ''Transaction timeout''\<rparr>
               \<and> sendTransaction_settle (manager e2) r a (TimerFirst None) = (res, s3, ev2))
       \<and> (length (filter is_begin between) < 100 \<longrightarrow>
             settled_record (txRecord (sha3 (rawTransaction stx)) a opts t) out \<in> set (snapshot s3))
       \<and> (between = [] \<longrightarrow>
             hd (snapshot s3) = settled_record (txRecord (sha3 (rawTransaction stx)) a opts t) out
             \<and> sendTransaction sha3 (manager e) stx a opts t out = (res, s3, ev1 @ ev2))"
proof -
  let ?pend = "txRecord (sha3 (rawTransaction stx)) a opts t"
  let ?B = "sendTransaction_begin sha3 (manager e) stx a opts t"
  note b = begin_suspends [OF ok beg]
  have m1: "manager e1 = fst (snd ?B)"
    using beg by (auto simp: exec_simps)
  have B: "?B = (r, manager e1, ev1)"
    by (simp add: prod_eq_iff m1 ev1 b(3))
  note be = begin_effects(1) [OF B]
  obtain hs where hs: "txHistory (manager e1) = r # hs"
    using begin_head [OF B] by blast
  have snap1: "snapshot (manager e1) = ?pend # List.map_filter (objs (manager e1)) hs"
    using snapshot_hd [OF hs b(2)] .
  note m = suspended_run [OF mid b(1) nos]
  have o2: "objs (manager e2) r = Some ?pend"
    using m b(2) by simp
  note se = settle_record [OF fin o2]
  have mem: "(r, a) \<in> set (in_flight e2)"
    using m unfolding call_suspended_def by blast
  have step: "exec_step sha3 e2 (SettleStep r a out) =
            (e2\<lparr>manager := s3, in_flight := removeAll (r, a) (in_flight e2)\<rparr>, Settled res)"
    using mem fin by (simp add: exec_simps)
  have filt: "filter ordered_effect (ev1 @ ev2) =
           [Sha3 (rawTransaction stx), SaveHistory (snapshot (manager e1)),
            Race (rawTransaction stx) (js_or (opt_timeout opts) (JNum 120000)),
            SetStatus r (terminal out), SaveHistory (snapshot s3)]"
    using be se(2) by simp
  have outcome: "(case out of
             BroadcastFirst (Resolved rcpt) \<Rightarrow>
               res = Inr rcpt \<and> terminal out = Confirmed
               \<and> settled_record ?pend out =
                   ?pend\<lparr>tx_status := Confirmed, tx_blockNumber := Some (blockNumber rcpt),
                      tx_gasUsed := Some (gasUsed rcpt)\<rparr>
           | BroadcastFirst (Rejected msg) \<Rightarrow>
               res = Inl msg \<and> terminal out = Failed
               \<and> settled_record ?pend out = ?pend\<lparr>tx_status := Failed, tx_error := Some msg\<rparr>
           | TimerFirst late \<Rightarrow>
               res = Inl ''Transaction timeout'' \<and> terminal out = Failed
               \<and> settled_record ?pend out =
                   ?pend\<lparr>tx_status := Failed, tx_error := Some ''Transaction timeout''\<rparr>
               \<and> sendTransaction_settle (manager e2) r a (TimerFirst None) = (res, s3, ev2))"
  proof (cases out)
    case (BroadcastFirst x)
    then show ?thesis
      using se(3) by (cases x) (simp_all add: promise_race_def terminal_def settled_record_def)
  next
    case (TimerFirst late)
    then show ?thesis
      using se(3) fin settle_ignores_loser [of "manager e2" r a late]
      by (simp add: promise_race_def terminal_def settled_record_def)
  qed
  have kept: "settled_record ?pend out \<in> set (snapshot s3)"
    if few: "length (filter is_begin between) < 100"
  proof -
    have "0 + length (filter is_begin between) < maxHistoryItems"
      using few by (simp add: maxHistoryItems_def)
    from run_steps_position [OF mid b(5) b(4) this]
    have "r \<in> set (txHistory (manager e2))"
      by (metis nth_mem)
    then have "r \<in> set (txHistory s3)"
      using se(4) by simp
    then show ?thesis
      using se(1) by (simp add: in_snapshot)
  qed
  have alone: "hd (snapshot s3) = settled_record ?pend out
             \<and> sendTransaction sha3 (manager e) stx a opts t out = (res, s3, ev1 @ ev2)"
    if "between = []"
  proof -
    have e2: "e2 = e1"
      using mid that by simp
    then have "txHistory s3 = r # hs"
      using se(4) hs by simp
    then have "hd (snapshot s3) = settled_record ?pend out"
      using snapshot_hd [OF _ se(1)] by simp
    moreover have "sendTransaction sha3 (manager e) stx a opts t out = (res, s3, ev1 @ ev2)"
      using B fin e2 by (simp add: sendTransaction_def)
    ultimately show ?thesis by simp
  qed
  have p: "snapshot (manager e1) \<noteq> []" "hd (snapshot (manager e1)) = ?pend"
    "tx_status ?pend = Pending" "tx_hash ?pend = sha3 (rawTransaction stx)"
    using snap1 by (simp_all add: txRecord_def)
  from kept have k: "length (filter is_begin between) < 100 \<longrightarrow>
             settled_record ?pend out \<in> set (snapshot s3)"
    by blast
  from alone have al: "between = [] \<longrightarrow>
             hd (snapshot s3) = settled_record ?pend out
             \<and> sendTransaction sha3 (manager e) stx a opts t out = (res, s3, ev1 @ ev2)"
    by blast
  show ?thesis
    by (intro conjI) (rule filt p step se(1) outcome k al)+
qed

theorem sendTransaction_effects_among_calls_witness:
  "engine_ok ex_engine
   \<and> fst ex_settle_timeout = Inl ''Transaction timeout''
   \<and> filter ordered_effect
         (snd (snd (sendTransaction_begin ex_sha3 (manager ex_engine) ex_stx ''0xAbC'' ex_opts 1000))
          @ snd (snd ex_settle_timeout)) =
       [Sha3 ''f86b'', SaveHistory (snapshot (manager ex_e1)), Race ''f86b'' (JNum 120000),
        SetStatus 0 Failed, SaveHistory (snapshot (fst (snd ex_settle_timeout)))]
   \<and> hd (snapshot (manager ex_e1)) = ex_pending
   \<and> ex_pending\<lparr>tx_status := Failed, tx_error := Some ''Transaction timeout''\<rparr>
       \<in> set (snapshot (fst (snd ex_settle_timeout)))"
proof -
  have ok: "engine_ok ex_engine"
    by (simp add: engine_ok_def ex_engine_def)
  have beg: "exec_step ex_sha3 ex_engine (BeginStep ex_stx ''0xAbC'' ex_opts 1000) = (ex_e1, Begun 0)"
    by (simp add: ex_e1_def exec_simps ex_engine_def ex_manager_def new_TransactionManager_def)
  have mid: "run_steps ex_sha3 ex_e1 ex_between = (ex_e2, snd (run_steps ex_sha3 ex_e1 ex_between))"
    by (simp add: ex_e2_def)
  have nos: "\<forall>st \<in> set ex_between. \<not> settles 0 st"
    by (simp add: ex_between_def)
  have fin: "sendTransaction_settle (manager ex_e2) 0 ''0xAbC'' (TimerFirst None) =
               (fst ex_settle_timeout, fst (snd ex_settle_timeout), snd (snd ex_settle_timeout))"
    by (simp add: ex_settle_timeout_def prod_eq_iff)
  have few: "length (filter is_begin ex_between) < 100"
    by (simp add: ex_between_def)
  have pend: "txRecord (ex_sha3 ''f86b'') ''0xAbC'' ex_opts 1000 = ex_pending"
    by (simp add: txRecord_def ex_sha3_def ex_opts_def ex_pending_def js_or_def)
  have raw: "rawTransaction ex_stx = ''f86b''" "js_or (opt_timeout ex_opts) (JNum 120000) = JNum 120000"
    by (simp_all add: ex_stx_def ex_opts_def js_or_def)
  show ?thesis
    using sendTransaction_effects_among_calls [OF ok beg refl mid nos fin] ok few
    by (simp add: pend raw terminal_def promise_race_def settled_record_def)
qed

lemma ex_batch_state:
  "txHistory (manager ex_batch) = rev [1 ..< 101]"
  "\<forall>x \<in> set (rev [1 ..< 101]). objs (manager ex_batch) x = Some (txRecord ''h:f86c'' ''0xD1'' ex_opts 2000)"
  "(0, ''0xAbC'') \<in> set (in_flight ex_batch)"
proof -
  let ?b1 = "BeginStep ex_stx ''0xAbC'' ex_opts 1000"
  let ?b2 = "BeginStep ex_stx2 ''0xD1'' ex_opts 2000"
  define e1 where "e1 = fst (exec_step ex_sha3 ex_engine ?b1)"
  have h1: "txHistory (manager e1) = [0]" and n1: "next_obj (manager e1) = 1"
    and f1: "in_flight e1 = [(0, ''0xAbC'')]"
    by (simp_all add: e1_def exec_simps begin_txHistory ex_engine_def ex_manager_def
          new_TransactionManager_def maxHistoryItems_def)
  have l1: "length (txHistory (manager e1)) \<le> 100"
    using h1 by simp
  have b: "ex_batch = fst (run_steps ex_sha3 e1 (replicate 100 ?b2))"
    by (simp add: ex_batch_def e1_def split_beta)
  note m = run_begins [OF l1, of ex_sha3 100 ex_stx2 "''0xD1''" ex_opts 2000, folded b]
  show "txHistory (manager ex_batch) = rev [1 ..< 101]"
    using m h1 n1 by simp
  show "\<forall>x \<in> set (rev [1 ..< 101]). objs (manager ex_batch) x = Some (txRecord ''h:f86c'' ''0xD1'' ex_opts 2000)"
    using m n1 by (simp add: ex_sha3_def ex_stx2_def)
  show "(0, ''0xAbC'') \<in> set (in_flight ex_batch)"
    using m f1 by auto
qed

text \<open>
  The claim as stated has every call persist the terminal record, and there it fails:
  in the batch of 101 wallets the call for the first wallet receives its receipt when
  its record has left the history, and the file it writes in step 4 holds the 100
  Pending records of the other calls and not the Confirmed one.
\<close>

theorem evicted_record_missing_from_written_file_counterexample:
  "(0, ''0xAbC'') \<in> set (in_flight ex_batch)
   \<and> fst (sendTransaction_settle (manager ex_batch) 0 ''0xAbC'' (BroadcastFirst (Resolved ex_receipt)))
       = Inr ex_receipt
   \<and> filter ordered_effect
         (snd (snd (sendTransaction_settle (manager ex_batch) 0 ''0xAbC''
                      (BroadcastFirst (Resolved ex_receipt))))) =
       [SetStatus 0 Confirmed, SaveHistory (replicate 100 (txRecord ''h:f86c'' ''0xD1'' ex_opts 2000))]
   \<and> tx_status (txRecord ''h:f86c'' ''0xD1'' ex_opts 2000) = Pending
   \<and> tx_hash (txRecord ''h:f86c'' ''0xD1'' ex_opts 2000) \<noteq> ex_sha3 (rawTransaction ex_stx)"
proof -
  let ?S = "sendTransaction_settle (manager ex_batch) 0 ''0xAbC'' (BroadcastFirst (Resolved ex_receipt))"
  have h3: "txHistory (fst (snd ?S)) = rev [1 ..< 101]"
    using ex_batch_state(1) by simp
  have o3: "objs (fst (snd ?S)) x = Some (txRecord ''h:f86c'' ''0xD1'' ex_opts 2000)"
    if "x \<in> set (rev [1 ..< 101])" for x
  proof -
    have "x \<noteq> 0" using that by auto
    then show ?thesis
      using ex_batch_state(2) that by simp
  qed
  have snap: "snapshot (fst (snd ?S)) = replicate 100 (txRecord ''h:f86c'' ''0xD1'' ex_opts 2000)"
    unfolding snapshot_def h3
    using map_filter_const [of "rev [1 ..< 101]" "objs (fst (snd ?S))"] o3 by simp
  have t: "terminal (BroadcastFirst (Resolved ex_receipt)) = Confirmed"
    by (simp add: terminal_def promise_race_def)
  show ?thesis
    using ex_batch_state(3) settle_ordered_effects [of "manager ex_batch" 0 "''0xAbC''" "BroadcastFirst (Resolved ex_receipt)"]
    by (simp add: snap t promise_race_def txRecord_def ex_sha3_def ex_stx_def)
qed

section \<open>The retry wrapper\<close>

lemma attempts_of_append [simp]: "attempts_of (xs @ ys) = attempts_of xs @ attempts_of ys"
  by (induction xs rule: attempts_of.induct) simp_all

lemma waits_of_append [simp]: "waits_of (xs @ ys) = waits_of xs @ waits_of ys"
  by (induction xs rule: waits_of.induct) simp_all

lemma broadcasts_of_append [simp]: "broadcasts_of (xs @ ys) = broadcasts_of xs + broadcasts_of ys"
  by (induction xs rule: broadcasts_of.induct) simp_all

lemma attempts_of_Tx [simp]: "attempts_of (map Tx ev) = []"
  by (induction ev) simp_all

lemma waits_of_Tx [simp]: "waits_of (map Tx ev) = []"
  by (induction ev) simp_all



lemma sendTransaction_alone:
  "sendTransaction_among sha3 (\<lambda>s. s) s stx a opts t out = sendTransaction sha3 s stx a opts t out"
  by (simp add: sendTransaction_among_def sendTransaction_def)
































section \<open>The batch handler\<close>

lemma first_rejection_None: "(first_rejection cs = None) = (\<forall>c \<in> set cs. is_Inr (snd c))"
  by (induction cs rule: first_rejection.induct) (auto split: option.splits)

lemma fulfilled_values_length:
  "\<forall>c \<in> set cs. is_Inr (snd c) \<Longrightarrow> length (fulfilled_values cs) = length cs"
  by (induction cs rule: fulfilled_values.induct) auto

lemma success_count_le: "success_count cs \<le> length cs"
  by (simp add: success_count_def)

lemma success_count_all: "(success_count cs = length cs) = (\<forall>c \<in> set cs. is_Inr (snd c))"
proof (induction cs)
  case Nil
  show ?case by (simp add: success_count_def)
next
  case (Cons c cs)
  have le: "length (filter (\<lambda>c. is_Inr (snd c)) cs) \<le> length cs"
    by (rule length_filter_le)
  show ?case
  proof (cases "is_Inr (snd c)")
    case True
    with Cons show ?thesis
      by (simp add: success_count_def)
  next
    case False
    have "length (filter (\<lambda>c. is_Inr (snd c)) cs) \<noteq> Suc (length cs)"
      using le by linarith
    with False show ?thesis
      by (simp add: success_count_def)
  qed
qed

lemma promise_all_fulfilled:
  "\<forall>c \<in> set cs. is_Inr (snd c) \<Longrightarrow>
     snd (promise_all cs) = Inr (fulfilled_values cs) \<and> fst (promise_all cs) = fold max (map fst cs) 0"
  using first_rejection_None [of cs] by (simp add: promise_all_def)

lemma promise_all_rejected:
  "\<not> (\<forall>c \<in> set cs. is_Inr (snd c)) \<Longrightarrow>
     \<exists>t m. first_rejection cs = Some (t, m) \<and> promise_all cs = (t, Inl m)"
  using first_rejection_None [of cs] by (cases "first_rejection cs") (auto simp: promise_all_def)

lemma first_rejection_mem:
  "first_rejection cs = Some (t, m) \<Longrightarrow> (t, Inl m) \<in> set cs"
  by (induction cs arbitrary: t m rule: first_rejection.induct)
     (auto split: option.splits if_splits)

lemma first_rejection_least:
  "first_rejection cs = Some (t, m) \<Longrightarrow> (t', Inl m') \<in> set cs \<Longrightarrow> t \<le> t'"
  by (induction cs arbitrary: t m rule: first_rejection.induct)
     (auto split: option.splits if_splits simp: first_rejection_None)

text \<open>
  The handler reports a count exactly when every chain was fulfilled, and the count
  is then the number of wallets; after a failure of any chain it reports no count.
\<close>

lemma mint_handler_complete:
  assumes "W \<noteq> []" and "c \<noteq> []" and "\<forall>w \<in> set W. is_Inr (snd (chain w))"
  shows "snd (mint_handler admin admin W (Some c) chain) =
           [Bot (BatchStart (length W) (take 8 c)), Bot (BatchComplete (length W) (length W))]"
proof -
  have all: "\<forall>x \<in> set (map chain W). is_Inr (snd x)"
    using assms(3) by simp
  obtain t where p: "promise_all (map chain W) = (t, Inr (fulfilled_values (map chain W)))"
    using promise_all_fulfilled [OF all] by (cases "promise_all (map chain W)") simp
  have "length (fulfilled_values (map chain W)) = length W"
    using fulfilled_values_length [OF all] by simp
  then show ?thesis
    using assms(1,2) p by (simp add: mint_handler_def receipt_truthy_def)
qed

lemma mint_handler_failed:
  assumes "W \<noteq> []" and "c \<noteq> []" and "\<not> (\<forall>w \<in> set W. is_Inr (snd (chain w)))"
  shows "\<exists>t m. first_rejection (map chain W) = Some (t, m)
           \<and> mint_handler admin admin W (Some c) chain =
               (t, [Bot (BatchStart (length W) (take 8 c)), LoggerError m, Bot SomeMintsFailed])"
proof -
  have "\<not> (\<forall>x \<in> set (map chain W). is_Inr (snd x))"
    using assms(3) by simp
  then obtain t m where "first_rejection (map chain W) = Some (t, m)"
    "promise_all (map chain W) = (t, Inl m)"
    using promise_all_rejected by blast
  then show ?thesis
    using assms(1,2) by (simp add: mint_handler_def)
qed

lemmas batch_defs = ex_wallets_def ex_chain_partial_def ex_chain_total_def ex_chain_early_def
  mint_handler_def promise_all_def success_count_def ex_receipt_def

text \<open>
  Claim C7. A batch of three wallets of which two chains succeed and the third fails
  for good has two successes out of three. The handler reports no count for it: it logs
  the error of the failed chain and sends \<^verbatim>\<open>Some mints failed, check /history for details\<close>,
  which is also all it sends when the three chains fail. When the failing chain is the
  first to settle, at time 3, the handler reports then, while the other chains settle at
  50 and 60.
\<close>

theorem partial_batch_reports_no_count:
  "success_count (map ex_chain_partial ex_wallets) = 2
   \<and> success_count (map ex_chain_total ex_wallets) = 0
   \<and> length ex_wallets = 3
   \<and> mint_handler 1 1 ex_wallets (Some ''0xC0ffee00'') ex_chain_partial =
       (20, [Bot (BatchStart 3 ''0xC0ffee''), LoggerError ''Network error'', Bot SomeMintsFailed])
   \<and> mint_handler 1 1 ex_wallets (Some ''0xC0ffee00'') ex_chain_total =
       (20, [Bot (BatchStart 3 ''0xC0ffee''), LoggerError ''Network error'', Bot SomeMintsFailed])
   \<and> mint_handler 1 1 ex_wallets (Some ''0xC0ffee00'') ex_chain_early =
       (3, [Bot (BatchStart 3 ''0xC0ffee''), LoggerError ''Network error'', Bot SomeMintsFailed])
   \<and> fold max (map fst (map ex_chain_early ex_wallets)) 0 = 60"
  by (simp add: batch_defs)

end
